theory Spec2Isabelle
  imports Main
begin

section \<open>Tokens and the lexical analyser\<close>

text \<open>
  The embedding follows the three classes of the transpiler: \<open>LexicalAnalyzer\<close>,
  \<open>SyntaxAnalyzer\<close> and \<open>CodeGenerator\<close>. A JavaScript string is modelled as a
  \<open>char list\<close>; a \<open>char\<close> stands for one code unit in the range 0..255. Reading
  \<open>code[i]\<close> outside the string gives \<open>undefined\<close> in the source and \<open>None\<close> here.
\<close>

datatype token_type =
  KEYWORD | IDENTIFIER | NUMBER | STRING | OPERATOR | DELIMITER | NEWLINE | EOF

text \<open>
  The source type \<open>Token\<close> has the fields \<open>type\<close>, \<open>value\<close> (a string or null) and
  the optional \<open>line\<close> and \<open>column\<close>; the fields carry the prefix \<open>t\<close> here.
\<close>

record token =
  ttype :: token_type
  tvalue :: "string option"
  tline :: "nat option"
  tcolumn :: "nat option"

record lexer =
  code :: string
  position :: nat
  line :: nat
  column :: nat
  tokens :: "token list"

definition keywordSet :: "string list" where
  "keywordSet =
    [''int'', ''float'', ''double'', ''char'', ''void'', ''if'', ''else'', ''while'', ''for'',
     ''return'', ''include'', ''main'', ''printf'', ''scanf'', ''bool'', ''long'', ''short'',
     ''break'', ''continue'', ''switch'', ''case'', ''default'', ''const'', ''static'',
     ''struct'', ''union'', ''enum'', ''typedef'', ''extern'', ''register'', ''auto'',
     ''volatile'', ''signed'', ''unsigned'', ''goto'', ''do'', ''sizeof'']"

definition newline :: char where
  "newline = CHR 0x0A"

definition backslash :: char where
  "backslash = CHR 0x5C"

definition dquote :: char where
  "dquote = CHR 0x22"

definition squote :: char where
  "squote = CHR 0x27"

definition charAt :: "lexer \<Rightarrow> nat \<Rightarrow> char option" where
  "charAt s i = (if i < length (code s) then Some (code s ! i) else None)"

definition isLetter :: "char \<Rightarrow> bool" where
  "isLetter c =
    (let n = (of_char c :: nat) in (97 \<le> n \<and> n \<le> 122) \<or> (65 \<le> n \<and> n \<le> 90))"

definition isDigit :: "char \<Rightarrow> bool" where
  "isDigit c = (let n = (of_char c :: nat) in 48 \<le> n \<and> n \<le> 57)"

definition isOperator :: "char \<Rightarrow> bool" where
  "isOperator c = (c \<in> set ''+-*/%=<>!&|^~'')"

definition isDelimiter :: "char \<Rightarrow> bool" where
  "isDelimiter c = (c \<in> set ''(){}[];,#.'')"

text \<open>
  The regular expression \<open>\s\<close>: among the code units 0..255 it matches tab, line feed,
  vertical tab, form feed, carriage return, space and the no-break space.
\<close>

definition isSpace :: "char \<Rightarrow> bool" where
  "isSpace c = ((of_char c :: nat) \<in> {9, 10, 11, 12, 13, 32, 160})"

definition advance :: "lexer \<Rightarrow> lexer" where
  "advance s =
    (if charAt s (position s) = Some newline
     then s\<lparr>line := line s + 1, column := 1, position := position s + 1\<rparr>
     else s\<lparr>column := column s + 1, position := position s + 1\<rparr>)"

definition peek :: "lexer \<Rightarrow> char option" where
  "peek s = charAt s (position s + 1)"

definition push :: "lexer \<Rightarrow> token \<Rightarrow> lexer" where
  "push s t = s\<lparr>tokens := tokens s @ [t]\<rparr>"

definition mkToken :: "token_type \<Rightarrow> string \<Rightarrow> nat \<Rightarrow> nat \<Rightarrow> token" where
  "mkToken ty val startLine startColumn =
    \<lparr>ttype = ty, tvalue = Some val, tline = Some startLine, tcolumn = Some startColumn\<rparr>"

function skipSingleLineComment :: "lexer \<Rightarrow> lexer" where
  "skipSingleLineComment s =
    (if position s < length (code s) \<and> code s ! position s \<noteq> newline
     then skipSingleLineComment (advance s)
     else s)"
  by pat_completeness auto
termination
  by (relation "measure (\<lambda>s. length (code s) - position s)") (auto simp: advance_def)

function skipMultiLineComment_loop :: "lexer \<Rightarrow> lexer" where
  "skipMultiLineComment_loop s =
    (if position s < length (code s) - 1 then
       (if code s ! position s = CHR ''*'' \<and> charAt s (position s + 1) = Some (CHR ''/'')
        then advance (advance s)
        else skipMultiLineComment_loop (advance s))
     else s)"
  by pat_completeness auto
termination
  by (relation "measure (\<lambda>s. length (code s) - position s)") (auto simp: advance_def)

definition skipMultiLineComment :: "lexer \<Rightarrow> lexer" where
  "skipMultiLineComment s = skipMultiLineComment_loop (advance (advance s))"

function skipWhitespace :: "lexer \<Rightarrow> lexer" where
  "skipWhitespace s =
    (if position s < length (code s) \<and> isSpace (code s ! position s)
        \<and> code s ! position s \<noteq> newline
     then skipWhitespace (advance s)
     else s)"
  by pat_completeness auto
termination
  by (relation "measure (\<lambda>s. length (code s) - position s)") (auto simp: advance_def)

function readIdentifier_loop :: "lexer \<Rightarrow> string \<Rightarrow> lexer \<times> string" where
  "readIdentifier_loop s val =
    (if position s < length (code s)
        \<and> (isLetter (code s ! position s) \<or> isDigit (code s ! position s)
             \<or> code s ! position s = CHR ''_'')
     then readIdentifier_loop (advance s) (val @ [code s ! position s])
     else (s, val))"
  by pat_completeness auto
termination
  by (relation "measure (\<lambda>(s, val). length (code s) - position s)") (auto simp: advance_def)

definition readIdentifier :: "lexer \<Rightarrow> lexer" where
  "readIdentifier s =
    (let startLine = line s; startColumn = column s;
         (s', val) = readIdentifier_loop s [];
         ty = (if val \<in> set keywordSet then KEYWORD else IDENTIFIER)
     in push s' (mkToken ty val startLine startColumn))"

function readNumber_loop :: "lexer \<Rightarrow> string \<Rightarrow> bool \<Rightarrow> lexer \<times> string" where
  "readNumber_loop s val hasDecimal =
    (if position s < length (code s)
        \<and> (isDigit (code s ! position s) \<or> (code s ! position s = CHR ''.'' \<and> \<not> hasDecimal))
     then readNumber_loop (advance s) (val @ [code s ! position s])
            (if code s ! position s = CHR ''.'' then True else hasDecimal)
     else (s, val))"
  by pat_completeness auto
termination
  by (relation "measure (\<lambda>(s, val, d). length (code s) - position s)") (auto simp: advance_def)

definition readNumber :: "lexer \<Rightarrow> lexer" where
  "readNumber s =
    (let startLine = line s; startColumn = column s;
         (s', val) = readNumber_loop s [] False
     in push s' (mkToken NUMBER val startLine startColumn))"

text \<open>
  \<open>readString\<close> and \<open>readCharLiteral\<close> share their loop up to the closing quote
  character, which is the parameter \<open>q\<close> of \<open>readQuoted_loop\<close>.
\<close>

function readQuoted_loop :: "char \<Rightarrow> lexer \<Rightarrow> string \<Rightarrow> lexer \<times> string" where
  "readQuoted_loop q s val =
    (if position s < length (code s) \<and> code s ! position s \<noteq> q then
       (if code s ! position s = backslash \<and> position s + 1 < length (code s) then
          (if position (advance s) < length (code (advance s))
           then readQuoted_loop q (advance (advance s))
                  ((val @ [code s ! position s]) @ [code (advance s) ! position (advance s)])
           else readQuoted_loop q (advance s) (val @ [code s ! position s]))
        else readQuoted_loop q (advance s) (val @ [code s ! position s]))
     else (s, val))"
  by pat_completeness auto
termination
  by (relation "measure (\<lambda>(q, s, val). length (code s) - position s)")
     (auto simp: advance_def)

definition readString :: "lexer \<Rightarrow> lexer" where
  "readString s =
    (let startLine = line s; startColumn = column s;
         (s', val) = readQuoted_loop dquote (advance s) [];
         s'' = (if position s' < length (code s') then advance s' else s')
     in push s'' (mkToken STRING val startLine startColumn))"

definition readCharLiteral :: "lexer \<Rightarrow> lexer" where
  "readCharLiteral s =
    (let startLine = line s; startColumn = column s;
         (s', val) = readQuoted_loop squote (advance s) [];
         s'' = (if position s' < length (code s') then advance s' else s')
     in push s'' (mkToken STRING val startLine startColumn))"

definition twoCharOperators :: "string list" where
  "twoCharOperators =
    [''=='', ''!='', ''<='', ''>='', ''++'', ''--'', ''&&'', ''||'', ''+='', ''-='', ''*='',
     ''/='', ''%='', ''<<'', ''>>'']"

definition readOperator :: "lexer \<Rightarrow> lexer" where
  "readOperator s =
    (let val = [code s ! position s]; startLine = line s; startColumn = column s;
         s1 = advance s;
         (s2, val2) =
           (if position s1 < length (code s1) then
              (let twoChar = val @ [code s1 ! position s1] in
               if twoChar \<in> set twoCharOperators then (advance s1, twoChar) else (s1, val))
            else (s1, val))
     in push s2 (mkToken OPERATOR val2 startLine startColumn))"

definition readDelimiter :: "lexer \<Rightarrow> lexer" where
  "readDelimiter s =
    (let val = [code s ! position s]; startLine = line s; startColumn = column s
     in push (advance s) (mkToken DELIMITER val startLine startColumn))"

text \<open>
  One pass through the body of the \<open>while\<close> loop of \<open>tokenize\<close>, after the
  whitespace has been skipped and the end-of-input test has failed: the dispatch on the
  current character, in the order of the source.
\<close>

definition dispatch :: "lexer \<Rightarrow> lexer" where
  "dispatch s =
    (let char = code s ! position s in
     if char = CHR ''/'' \<and> peek s = Some (CHR ''/'') then skipSingleLineComment s
     else if char = CHR ''/'' \<and> peek s = Some (CHR ''*'') then skipMultiLineComment s
     else if isLetter char \<or> char = CHR ''_'' then readIdentifier s
     else if isDigit char then readNumber s
     else if char = dquote then readString s
     else if char = squote then readCharLiteral s
     else if isOperator char then readOperator s
     else if isDelimiter char then readDelimiter s
     else if char = newline then
       advance (push s (mkToken NEWLINE [newline] (line s) (column s)))
     else advance s)"


declare skipSingleLineComment.simps [simp del]
declare skipMultiLineComment_loop.simps [simp del]
declare skipWhitespace.simps [simp del]
declare readIdentifier_loop.simps [simp del]
declare readNumber_loop.simps [simp del]
declare readQuoted_loop.simps [simp del]

subsection \<open>Every pass of the loop consumes input\<close>

lemma code_advance [simp]: "code (advance s) = code s"
  by (simp add: advance_def)

lemma position_advance [simp]: "position (advance s) = position s + 1"
  by (simp add: advance_def)

lemma tokens_advance [simp]: "tokens (advance s) = tokens s"
  by (simp add: advance_def)

lemma push_simps [simp]:
  "code (push s t) = code s" "position (push s t) = position s"
  "tokens (push s t) = tokens s @ [t]"
  by (simp_all add: push_def)

lemma skipSingleLineComment_frame:
  "code (skipSingleLineComment s) = code s \<and> position s \<le> position (skipSingleLineComment s)
   \<and> tokens (skipSingleLineComment s) = tokens s"
proof (induction s rule: skipSingleLineComment.induct)
  case (1 s)
  then show ?case
    by (subst (1 2 3) skipSingleLineComment.simps) auto
qed

lemma skipSingleLineComment_strict:
  assumes "position s < length (code s)" "code s ! position s = CHR ''/''"
  shows "position s < position (skipSingleLineComment s)"
proof -
  have "skipSingleLineComment s = skipSingleLineComment (advance s)"
    using assms by (subst skipSingleLineComment.simps) (simp add: newline_def)
  then show ?thesis
    using skipSingleLineComment_frame [of "advance s"] by simp
qed

lemma skipMultiLineComment_loop_frame:
  "code (skipMultiLineComment_loop s) = code s
   \<and> position s \<le> position (skipMultiLineComment_loop s)
   \<and> tokens (skipMultiLineComment_loop s) = tokens s"
proof (induction s rule: skipMultiLineComment_loop.induct)
  case (1 s)
  then show ?case
    by (subst (1 2 3) skipMultiLineComment_loop.simps) auto
qed

lemma skipMultiLineComment_frame:
  "code (skipMultiLineComment s) = code s \<and> position s < position (skipMultiLineComment s)
   \<and> tokens (skipMultiLineComment s) = tokens s"
  using skipMultiLineComment_loop_frame [of "advance (advance s)"]
  by (simp add: skipMultiLineComment_def)

lemma skipWhitespace_frame:
  "code (skipWhitespace s) = code s \<and> position s \<le> position (skipWhitespace s)
   \<and> tokens (skipWhitespace s) = tokens s"
proof (induction s rule: skipWhitespace.induct)
  case (1 s)
  then show ?case
    by (subst (1 2 3) skipWhitespace.simps) auto
qed

lemma readIdentifier_loop_frame:
  "code (fst (readIdentifier_loop s v)) = code s
   \<and> position s \<le> position (fst (readIdentifier_loop s v))
   \<and> tokens (fst (readIdentifier_loop s v)) = tokens s"
proof (induction s v rule: readIdentifier_loop.induct)
  case (1 s v)
  then show ?case
    by (subst (1 2 3) readIdentifier_loop.simps) auto
qed

lemma readIdentifier_loop_strict:
  assumes "position s < length (code s)"
    "isLetter (code s ! position s) \<or> code s ! position s = CHR ''_''"
  shows "position s < position (fst (readIdentifier_loop s v))"
proof -
  have "readIdentifier_loop s v = readIdentifier_loop (advance s) (v @ [code s ! position s])"
    using assms by (subst readIdentifier_loop.simps) auto
  then show ?thesis
    using readIdentifier_loop_frame [of "advance s" "v @ [code s ! position s]"] by simp
qed

lemma readIdentifier_frame:
  "code (readIdentifier s) = code s
   \<and> (\<exists>t. tokens (readIdentifier s) = tokens s @ [t] \<and> ttype t \<noteq> EOF)"
  using readIdentifier_loop_frame [of s "[]"]
  by (simp add: readIdentifier_def Let_def split_beta mkToken_def)

lemma readIdentifier_strict:
  assumes "position s < length (code s)"
    "isLetter (code s ! position s) \<or> code s ! position s = CHR ''_''"
  shows "position s < position (readIdentifier s)"
  using readIdentifier_loop_strict [of s "[]"] assms
  by (auto simp add: readIdentifier_def Let_def split_beta)

lemma readNumber_loop_frame:
  "code (fst (readNumber_loop s v d)) = code s
   \<and> position s \<le> position (fst (readNumber_loop s v d))
   \<and> tokens (fst (readNumber_loop s v d)) = tokens s"
proof (induction s v d rule: readNumber_loop.induct)
  case (1 s v d)
  then show ?case
    by (subst (1 2 3) readNumber_loop.simps) auto
qed

lemma readNumber_loop_strict:
  assumes "position s < length (code s)" "isDigit (code s ! position s)"
  shows "position s < position (fst (readNumber_loop s v d))"
proof -
  have "readNumber_loop s v d = readNumber_loop (advance s) (v @ [code s ! position s])
            (if code s ! position s = CHR ''.'' then True else d)"
    using assms by (subst readNumber_loop.simps) simp
  moreover have "position (advance s)
      \<le> position (fst (readNumber_loop (advance s) (v @ [code s ! position s])
            (if code s ! position s = CHR ''.'' then True else d)))"
    using readNumber_loop_frame by blast
  ultimately show ?thesis by simp
qed

lemma readNumber_frame:
  "code (readNumber s) = code s
   \<and> (\<exists>t. tokens (readNumber s) = tokens s @ [t] \<and> ttype t \<noteq> EOF)"
  using readNumber_loop_frame [of s "[]" False]
  by (simp add: readNumber_def Let_def split_beta mkToken_def)

lemma readNumber_strict:
  assumes "position s < length (code s)" "isDigit (code s ! position s)"
  shows "position s < position (readNumber s)"
  using readNumber_loop_strict [of s "[]" False] assms
  by (auto simp add: readNumber_def Let_def split_beta)

lemma readQuoted_loop_frame:
  "code (fst (readQuoted_loop q s v)) = code s
   \<and> position s \<le> position (fst (readQuoted_loop q s v))
   \<and> tokens (fst (readQuoted_loop q s v)) = tokens s"
proof (induction q s v rule: readQuoted_loop.induct)
  case (1 q s v)
  then show ?case
    by (subst (1 2 3) readQuoted_loop.simps) auto
qed

lemma readString_frame:
  "code (readString s) = code s \<and> position s < position (readString s)
   \<and> (\<exists>t. tokens (readString s) = tokens s @ [t] \<and> ttype t \<noteq> EOF)"
  using readQuoted_loop_frame [of dquote "advance s" "[]"]
  by (simp add: readString_def Let_def split_beta mkToken_def)

lemma readCharLiteral_frame:
  "code (readCharLiteral s) = code s \<and> position s < position (readCharLiteral s)
   \<and> (\<exists>t. tokens (readCharLiteral s) = tokens s @ [t] \<and> ttype t \<noteq> EOF)"
  using readQuoted_loop_frame [of squote "advance s" "[]"]
  by (simp add: readCharLiteral_def Let_def split_beta mkToken_def)

lemma readOperator_frame:
  "code (readOperator s) = code s \<and> position s < position (readOperator s)
   \<and> (\<exists>t. tokens (readOperator s) = tokens s @ [t] \<and> ttype t \<noteq> EOF)"
  by (simp add: readOperator_def Let_def split_beta mkToken_def)

lemma readDelimiter_frame:
  "code (readDelimiter s) = code s \<and> position s < position (readDelimiter s)
   \<and> (\<exists>t. tokens (readDelimiter s) = tokens s @ [t] \<and> ttype t \<noteq> EOF)"
  by (simp add: readDelimiter_def Let_def mkToken_def)

lemma dispatch_frame:
  assumes "position s < length (code s)"
  shows "code (dispatch s) = code s \<and> position s < position (dispatch s)"
  using assms skipSingleLineComment_frame [of s] skipSingleLineComment_strict [of s]
    skipMultiLineComment_frame [of s] readIdentifier_frame [of s] readIdentifier_strict [of s]
    readNumber_frame [of s] readNumber_strict [of s] readString_frame [of s]
    readCharLiteral_frame [of s] readOperator_frame [of s] readDelimiter_frame [of s]
  by (simp add: dispatch_def Let_def)

lemma dispatch_tokens:
  "tokens (dispatch s) = tokens s
   \<or> (\<exists>t. tokens (dispatch s) = tokens s @ [t] \<and> ttype t \<noteq> EOF)"
  using skipSingleLineComment_frame [of s]
    skipMultiLineComment_frame [of s] readIdentifier_frame [of s]
    readNumber_frame [of s] readString_frame [of s]
    readCharLiteral_frame [of s] readOperator_frame [of s] readDelimiter_frame [of s]
  by (simp add: dispatch_def Let_def mkToken_def)

subsection \<open>The method \<open>tokenize\<close>\<close>

text \<open>
  The \<open>while\<close> loop of \<open>tokenize\<close>. Its termination rests on \<open>dispatch_frame\<close>: every
  branch of the dispatch moves \<open>position\<close> forward and leaves \<open>code\<close> alone.
\<close>

function tokenize_loop :: "lexer \<Rightarrow> lexer" where
  "tokenize_loop s =
    (if position s < length (code s) then
       (if position (skipWhitespace s) \<ge> length (code (skipWhitespace s))
        then skipWhitespace s
        else tokenize_loop (dispatch (skipWhitespace s)))
     else s)"
  by pat_completeness auto
termination
proof (relation "measure (\<lambda>s. length (code s) - position s)")
  fix s :: lexer
  assume "position s < length (code s)"
    and "\<not> length (code (skipWhitespace s)) \<le> position (skipWhitespace s)"
  then show "(dispatch (skipWhitespace s), s) \<in> measure (\<lambda>s. length (code s) - position s)"
    using dispatch_frame [of "skipWhitespace s"] skipWhitespace_frame [of s]
    by auto
qed simp

declare tokenize_loop.simps [simp del]

definition eofToken :: token where
  "eofToken = \<lparr>ttype = EOF, tvalue = None, tline = None, tcolumn = None\<rparr>"

text \<open>The constructor: the state of a fresh analyser for the text \<open>c\<close>.\<close>

definition LexicalAnalyzer :: "string \<Rightarrow> lexer" where
  "LexicalAnalyzer c = \<lparr>code = c, position = 0, line = 1, column = 1, tokens = []\<rparr>"

text \<open>
  The method \<open>tokenize\<close>, run on the state \<open>s\<close> of the analyser: the loop, then the
  end-of-input token is pushed and the token list returned.
\<close>

definition tokenize :: "lexer \<Rightarrow> token list" where
  "tokenize s = tokens (tokenize_loop s) @ [eofToken]"

definition noEOF :: "token list \<Rightarrow> bool" where
  "noEOF ts = (EOF \<notin> ttype ` set ts)"

lemma dispatch_noEOF:
  assumes "noEOF (tokens s)"
  shows "noEOF (tokens (dispatch s))"
  using assms dispatch_tokens [of s] by (auto simp add: noEOF_def)

lemma tokenize_loop_noEOF:
  "noEOF (tokens s) \<Longrightarrow> noEOF (tokens (tokenize_loop s))"
proof (induction s rule: tokenize_loop.induct)
  case (1 s)
  show ?case
    using 1 skipWhitespace_frame [of s] dispatch_noEOF [of "skipWhitespace s"]
    by (subst tokenize_loop.simps) auto
qed

text \<open>
  Claim C1. For every input text \<open>c\<close>, \<open>tokenize\<close> returns (it is a total function, its
  loops having been shown to terminate) a token list that is not empty, whose last
  element is the end-of-input token with value null, and in which no earlier element
  has the type EOF.
\<close>

theorem tokenize_ends_with_single_eof:
  "tokenize (LexicalAnalyzer c) \<noteq> []
   \<and> last (tokenize (LexicalAnalyzer c)) = eofToken
   \<and> ttype eofToken = EOF \<and> tvalue eofToken = None
   \<and> noEOF (butlast (tokenize (LexicalAnalyzer c)))"
  using tokenize_loop_noEOF [of "LexicalAnalyzer c"]
  by (simp add: tokenize_def LexicalAnalyzer_def noEOF_def eofToken_def)


subsection \<open>Unterminated comments and strings\<close>

text \<open>
  Claim C8. The loop of \<open>skipMultiLineComment\<close> runs while
  \<open>position < code.length - 1\<close>, so without a closing \<open>*/\<close> it stops on the last
  character of the text instead of after it, and the main loop then reads that
  character as ordinary input: the text \<open>/* abc\<close> yields the identifier \<open>c\<close>.
\<close>

theorem unterminated_comment_last_char:
  "tokenize (LexicalAnalyzer ''/* abc'') = [mkToken IDENTIFIER ''c'' 1 6, eofToken]"
  by code_simp

text \<open>
  \<open>unclosed q cs\<close> says that the text \<open>cs\<close>, which follows an opening quote \<open>q\<close>, holds no
  closing quote: every \<open>q\<close> in it is the character after a backslash that is itself not
  the second character of such a pair. A backslash that ends the text escapes nothing.
\<close>

fun unclosed :: "char \<Rightarrow> string \<Rightarrow> bool" where
  "unclosed q [] = True"
| "unclosed q [c] = (c \<noteq> q)"
| "unclosed q (c # d # cs) =
    (c \<noteq> q \<and> (if c = backslash then unclosed q cs else unclosed q (d # cs)))"

lemma unclosed_Cons: "c \<noteq> backslash \<Longrightarrow> unclosed q (c # cs) = (c \<noteq> q \<and> unclosed q cs)"
  by (cases cs) simp_all

lemma unclosed_no_quote: "q \<notin> set cs \<Longrightarrow> unclosed q cs"
  by (induction q cs rule: unclosed.induct) auto

lemma readQuoted_loop_unclosed:
  "unclosed q (drop (position s) (code s)) \<Longrightarrow>
   position (fst (readQuoted_loop q s v)) \<ge> length (code s)
   \<and> snd (readQuoted_loop q s v) = v @ drop (position s) (code s)"
proof (induction q s v rule: readQuoted_loop.induct)
  case (1 q s v)
  show ?case
  proof (cases "position s < length (code s)")
    case False
    then show ?thesis by (subst (1 2) readQuoted_loop.simps) simp
  next
    case True
    then have d: "drop (position s) (code s)
        = code s ! position s # drop (Suc (position s)) (code s)"
      by (simp add: Cons_nth_drop_Suc)
    show ?thesis
    proof (cases "code s ! position s = backslash \<and> position s + 1 < length (code s)")
      case esc: True
      then have d2: "drop (Suc (position s)) (code s)
          = code s ! Suc (position s) # drop (Suc (Suc (position s))) (code s)"
        by (simp add: Cons_nth_drop_Suc)
      from 1(4) d d2 esc have ne: "code s ! position s \<noteq> q"
        and rest: "unclosed q (drop (Suc (Suc (position s))) (code s))"
        by simp_all
      from True ne esc
      have e: "readQuoted_loop q s v = readQuoted_loop q (advance (advance s))
              ((v @ [code s ! position s]) @ [code (advance s) ! position (advance s)])"
        by (subst readQuoted_loop.simps) auto
      have r: "position (advance s) < length (code (advance s))"
        using esc by simp
      from 1(1) [OF _ esc r] True ne rest e d d2 show ?thesis
        by simp
    next
      case plain: False
      have ne: "code s ! position s \<noteq> q"
        and rest: "unclosed q (drop (Suc (position s)) (code s))"
      proof -
        show "code s ! position s \<noteq> q"
          using 1(4) d by (cases "drop (Suc (position s)) (code s)") auto
        show "unclosed q (drop (Suc (position s)) (code s))"
        proof (cases "code s ! position s = backslash")
          case True
          with plain have "drop (Suc (position s)) (code s) = []"
            by simp
          then show ?thesis by simp
        next
          case False
          with 1(4) d show ?thesis
            by (simp add: unclosed_Cons)
        qed
      qed
      from True ne plain
      have e: "readQuoted_loop q s v = readQuoted_loop q (advance s) (v @ [code s ! position s])"
        by (subst readQuoted_loop.simps) auto
      from 1(3) [OF _ plain] True ne rest e d show ?thesis
        by simp
    qed
  qed
qed

lemma skipWhitespace_id:
  "position s < length (code s) \<Longrightarrow> \<not> isSpace (code s ! position s) \<Longrightarrow> skipWhitespace s = s"
  by (subst skipWhitespace.simps) simp

lemma tokenize_loop_at_end:
  "length (code s) \<le> position s \<Longrightarrow> tokenize_loop s = s"
  by (subst tokenize_loop.simps) simp

text \<open>
  Claim C10. When the main loop of \<open>tokenize\<close> stands on an opening double quote and no
  closing double quote follows it in the text (every later double quote is escaped by a
  backslash), \<open>tokenize\<close> returns: it adds one STRING token whose value is every
  character after the opening quote, unchanged (a backslash and the character after it,
  an escaped quote too, are both copied), then the end-of-input token. No error value
  exists in the model of the analyser, as no statement of it can raise.
\<close>

theorem unterminated_string_literal:
  assumes "position s < length (code s)"
    and "code s ! position s = dquote"
    and "unclosed dquote (drop (Suc (position s)) (code s))"
  shows "tokenize s =
    tokens s @ [mkToken STRING (drop (Suc (position s)) (code s)) (line s) (column s), eofToken]"
proof -
  let ?r = "readQuoted_loop dquote (advance s) []"
  have sw: "skipWhitespace s = s"
    using assms(1,2) by (intro skipWhitespace_id) (simp_all add: isSpace_def dquote_def)
  have disp: "dispatch s = readString s"
    using assms(2)
    by (simp add: dispatch_def Let_def dquote_def isLetter_def isDigit_def)
  have r: "position (fst ?r) \<ge> length (code s) \<and> snd ?r = drop (Suc (position s)) (code s)"
    using readQuoted_loop_unclosed [of dquote "advance s" "[]"] assms(3) by simp
  have fr: "code (fst ?r) = code s \<and> tokens (fst ?r) = tokens s"
    using readQuoted_loop_frame [of dquote "advance s" "[]"] by simp
  have rs: "readString s = push (fst ?r) (mkToken STRING (drop (Suc (position s)) (code s)) (line s) (column s))"
    using r fr by (simp add: readString_def Let_def split_beta)
  have "tokenize_loop s = tokenize_loop (readString s)"
    using assms(1) sw disp by (subst tokenize_loop.simps) simp
  also have "\<dots> = readString s"
    using r fr rs by (intro tokenize_loop_at_end) simp
  finally show ?thesis
    using rs fr by (simp add: tokenize_def)
qed

text \<open>
  The text is an opening quote, \<open>a\<close>, an escaped quote, \<open>b\<close> and a backslash: the quote in
  it closes nothing, and the value of the token is all that follows the opening quote.
\<close>

definition escapedQuoteText :: string where
  "escapedQuoteText = dquote # ''a'' @ [backslash, dquote] @ ''b'' @ [backslash]"

theorem unterminated_string_literal_witness:
  "position (LexicalAnalyzer escapedQuoteText) < length (code (LexicalAnalyzer escapedQuoteText))
   \<and> code (LexicalAnalyzer escapedQuoteText) ! position (LexicalAnalyzer escapedQuoteText)
       = dquote
   \<and> unclosed dquote
        (drop (Suc (position (LexicalAnalyzer escapedQuoteText)))
           (code (LexicalAnalyzer escapedQuoteText)))
   \<and> dquote \<in> set (drop (Suc (position (LexicalAnalyzer escapedQuoteText)))
                       (code (LexicalAnalyzer escapedQuoteText)))
   \<and> tokenize (LexicalAnalyzer escapedQuoteText)
       = [mkToken STRING (''a'' @ [backslash, dquote] @ ''b'' @ [backslash]) 1 1, eofToken]"
proof -
  have h: "position (LexicalAnalyzer escapedQuoteText)
      < length (code (LexicalAnalyzer escapedQuoteText))"
    "code (LexicalAnalyzer escapedQuoteText) ! position (LexicalAnalyzer escapedQuoteText)
      = dquote"
    "unclosed dquote
        (drop (Suc (position (LexicalAnalyzer escapedQuoteText)))
           (code (LexicalAnalyzer escapedQuoteText)))"
    by code_simp+
  have q: "dquote \<in> set (drop (Suc (position (LexicalAnalyzer escapedQuoteText)))
                       (code (LexicalAnalyzer escapedQuoteText)))"
    by code_simp
  have "tokenize (LexicalAnalyzer escapedQuoteText)
       = [mkToken STRING (''a'' @ [backslash, dquote] @ ''b'' @ [backslash]) 1 1, eofToken]"
    using unterminated_string_literal [OF h]
    by (simp add: LexicalAnalyzer_def escapedQuoteText_def)
  with h q show ?thesis
    by (intro conjI)
qed

text \<open>
  With the quote not escaped the literal is closed: the same theorem does not apply,
  and the token ends at the quote.
\<close>

lemma closed_string_literal:
  "\<not> unclosed dquote (''a'' @ [dquote] @ ''b'')
   \<and> tokenize (LexicalAnalyzer (dquote # ''a'' @ [dquote] @ ''b''))
       = [mkToken STRING ''a'' 1 1, mkToken IDENTIFIER ''b'' 1 4, eofToken]"
  by code_simp

section \<open>Stray symbols\<close>

text \<open>
  What the analyser does from a state on depends on the text from the current position
  on, on the line and column counters and on the tokens pushed so far, and not on the
  text before the position. \<open>sim exact s t\<close> relates two states with the same text
  ahead and the same types and values of tokens; with \<open>exact\<close> they also have the same
  line and column and the same tokens. Every method of the analyser preserves it.
\<close>

definition ahead :: "lexer \<Rightarrow> string" where
  "ahead s = drop (position s) (code s)"

definition kind :: "token \<Rightarrow> token_type \<times> string option" where
  "kind t = (ttype t, tvalue t)"

definition sim :: "bool \<Rightarrow> lexer \<Rightarrow> lexer \<Rightarrow> bool" where
  "sim exact s t =
    (ahead s = ahead t \<and> map kind (tokens s) = map kind (tokens t)
     \<and> (exact \<longrightarrow> line s = line t \<and> column s = column t \<and> tokens s = tokens t))"

lemma ahead_Nil: "(ahead s = []) = (length (code s) \<le> position s)"
  by (simp add: ahead_def)

lemma ahead_hd: "position s < length (code s) \<Longrightarrow> hd (ahead s) = code s ! position s"
  by (simp add: ahead_def hd_drop_conv_nth)

lemma ahead_advance: "ahead (advance s) = tl (ahead s)"
  by (simp add: ahead_def drop_Suc tl_drop)

lemma sim_range: "sim b s t \<Longrightarrow> (position s < length (code s)) = (position t < length (code t))"
  using ahead_Nil [of s] ahead_Nil [of t] by (auto simp: sim_def)

lemma sim_char:
  "sim b s t \<Longrightarrow> position s < length (code s) \<Longrightarrow> code s ! position s = code t ! position t"
  using ahead_hd [of s] ahead_hd [of t] sim_range [of b s t] by (auto simp: sim_def)

lemma sim_charAt: "sim b s t \<Longrightarrow> charAt s (position s) = charAt t (position t)"
  using sim_range [of b s t] sim_char [of b s t] by (auto simp: charAt_def)

lemma sim_advance: "sim b s t \<Longrightarrow> sim b (advance s) (advance t)"
  using sim_charAt [of b s t]
  by (auto simp: sim_def ahead_advance) (auto simp: advance_def)

lemma sim_peek: "sim b s t \<Longrightarrow> peek s = peek t"
  using sim_charAt [OF sim_advance, of b s t]
  by (auto simp: peek_def charAt_def split: if_splits)

lemma sim_range1:
  "sim b s t \<Longrightarrow> (position s + 1 < length (code s)) = (position t + 1 < length (code t))"
  using sim_range [OF sim_advance, of b s t] by simp

lemma sim_range2:
  "sim b s t \<Longrightarrow> (position s < length (code s) - 1) = (position t < length (code t) - 1)"
  using sim_range1 [of b s t] by auto

lemma sim_push:
  "sim b s t \<Longrightarrow> kind x = kind y \<Longrightarrow> (b \<Longrightarrow> x = y) \<Longrightarrow> sim b (push s x) (push t y)"
  by (auto simp: sim_def ahead_def push_def)

lemma sim_skipSingleLineComment:
  "sim b s t \<Longrightarrow> sim b (skipSingleLineComment s) (skipSingleLineComment t)"
proof (induction s arbitrary: t rule: skipSingleLineComment.induct)
  case (1 s)
  show ?case
    using 1 sim_range [of b s t] sim_char [of b s t] sim_advance [of b s t]
    by (subst skipSingleLineComment.simps, subst (2) skipSingleLineComment.simps) auto
qed

lemma sim_skipMultiLineComment_loop:
  "sim b s t \<Longrightarrow> sim b (skipMultiLineComment_loop s) (skipMultiLineComment_loop t)"
proof (induction s arbitrary: t rule: skipMultiLineComment_loop.induct)
  case (1 s)
  have r: "position s < length (code s) - 1 \<Longrightarrow> position s < length (code s)"
    by simp
  show ?case
    using 1 sim_range2 [of b s t] sim_char [of b s t] sim_advance [of b s t]
      sim_peek [of b s t] sim_advance [of b "advance s" "advance t"] r
    by (subst skipMultiLineComment_loop.simps, subst (2) skipMultiLineComment_loop.simps)
       (auto simp: peek_def)
qed

lemma sim_skipMultiLineComment:
  "sim b s t \<Longrightarrow> sim b (skipMultiLineComment s) (skipMultiLineComment t)"
  by (simp add: skipMultiLineComment_def sim_skipMultiLineComment_loop sim_advance)

lemma sim_skipWhitespace:
  "sim b s t \<Longrightarrow> sim b (skipWhitespace s) (skipWhitespace t)"
proof (induction s arbitrary: t rule: skipWhitespace.induct)
  case (1 s)
  show ?case
    using 1 sim_range [of b s t] sim_char [of b s t] sim_advance [of b s t]
    by (subst skipWhitespace.simps, subst (2) skipWhitespace.simps) auto
qed


lemma sim_readIdentifier_loop:
  "sim b s t \<Longrightarrow>
   sim b (fst (readIdentifier_loop s v)) (fst (readIdentifier_loop t v))
   \<and> snd (readIdentifier_loop s v) = snd (readIdentifier_loop t v)"
proof (induction s v arbitrary: t rule: readIdentifier_loop.induct)
  case (1 s v)
  show ?case
    using 1 sim_range [of b s t] sim_char [of b s t] sim_advance [of b s t]
    by (subst (1 2) readIdentifier_loop.simps, subst (3 4) readIdentifier_loop.simps) auto
qed

lemma sim_readNumber_loop:
  "sim b s t \<Longrightarrow>
   sim b (fst (readNumber_loop s v d)) (fst (readNumber_loop t v d))
   \<and> snd (readNumber_loop s v d) = snd (readNumber_loop t v d)"
proof (induction s v d arbitrary: t rule: readNumber_loop.induct)
  case (1 s v d)
  show ?case
    using 1 sim_range [of b s t] sim_char [of b s t] sim_advance [of b s t]
    by (subst (1 2) readNumber_loop.simps, subst (3 4) readNumber_loop.simps) auto
qed

lemma sim_readQuoted_loop:
  "sim b s t \<Longrightarrow>
   sim b (fst (readQuoted_loop q s v)) (fst (readQuoted_loop q t v))
   \<and> snd (readQuoted_loop q s v) = snd (readQuoted_loop q t v)"
proof (induction q s v arbitrary: t rule: readQuoted_loop.induct)
  case (1 q s v)
  note st = 1(4)
  note a = sim_advance [OF st]
  note aa = sim_advance [OF a]
  show ?case
  proof (cases "position s < length (code s) \<and> code s ! position s \<noteq> q")
    case False
    with sim_range [OF st] sim_char [OF st]
    have "\<not> (position t < length (code t) \<and> code t ! position t \<noteq> q)"
      by auto
    then have "readQuoted_loop q t v = (t, v)"
      by (subst readQuoted_loop.simps) auto
    moreover from False have "readQuoted_loop q s v = (s, v)"
      by (subst readQuoted_loop.simps) auto
    ultimately show ?thesis using st by simp
  next
    case go: True
    with sim_range [OF st] sim_char [OF st]
    have go': "position t < length (code t) \<and> code t ! position t \<noteq> q"
      and ch: "code t ! position t = code s ! position s"
      by auto
    show ?thesis
    proof (cases "code s ! position s = backslash \<and> position s + 1 < length (code s)")
      case False
      with sim_range1 [OF st] ch
      have "\<not> (code t ! position t = backslash \<and> position t + 1 < length (code t))"
        by auto
      with go'
      have "readQuoted_loop q t v = readQuoted_loop q (advance t) (v @ [code t ! position t])"
        by (subst readQuoted_loop.simps) auto
      moreover from False go
      have "readQuoted_loop q s v = readQuoted_loop q (advance s) (v @ [code s ! position s])"
        by (subst readQuoted_loop.simps) auto
      ultimately show ?thesis
        using 1(3) [OF go False a] ch by simp
    next
      case esc: True
      with sim_range1 [OF st] ch
      have esc': "code t ! position t = backslash \<and> position t + 1 < length (code t)"
        by auto
      from esc have r: "position (advance s) < length (code (advance s))"
        by simp
      from esc' have r': "position (advance t) < length (code (advance t))"
        by simp
      have ch2: "code (advance t) ! position (advance t) = code (advance s) ! position (advance s)"
        using sim_char [OF a r] by simp
      from go esc r
      have "readQuoted_loop q s v = readQuoted_loop q (advance (advance s))
              ((v @ [code s ! position s]) @ [code (advance s) ! position (advance s)])"
        by (subst readQuoted_loop.simps) auto
      moreover from go' esc' r'
      have "readQuoted_loop q t v = readQuoted_loop q (advance (advance t))
              ((v @ [code t ! position t]) @ [code (advance t) ! position (advance t)])"
        by (subst readQuoted_loop.simps) auto
      ultimately show ?thesis
        using 1(1) [OF go esc r aa] ch ch2 by simp
    qed
  qed
qed


lemma kind_mkToken [simp]: "kind (mkToken ty v l c) = (ty, Some v)"
  by (simp add: kind_def mkToken_def)

lemma sim_start: "sim b s t \<Longrightarrow> b \<Longrightarrow> line s = line t \<and> column s = column t"
  by (simp add: sim_def)

lemma sim_push_mkToken:
  assumes "sim b s t" and "b \<Longrightarrow> l = l' \<and> c = c'"
  shows "sim b (push s (mkToken ty v l c)) (push t (mkToken ty v l' c'))"
  using assms by (intro sim_push) simp_all

lemma sim_readIdentifier:
  assumes "sim b s t"
  shows "sim b (readIdentifier s) (readIdentifier t)"
  using sim_readIdentifier_loop [OF assms, of "[]"] sim_start [OF assms]
  by (simp add: readIdentifier_def Let_def split_beta sim_push_mkToken)

lemma sim_readNumber:
  assumes "sim b s t"
  shows "sim b (readNumber s) (readNumber t)"
  using sim_readNumber_loop [OF assms, of "[]" False] sim_start [OF assms]
  by (simp add: readNumber_def Let_def split_beta sim_push_mkToken)

lemma sim_close:
  assumes "sim b s t"
  shows "sim b (if position s < length (code s) then advance s else s)
               (if position t < length (code t) then advance t else t)"
  using assms sim_range [OF assms] sim_advance [OF assms] by simp

lemma sim_readString:
  assumes "sim b s t"
  shows "sim b (readString s) (readString t)"
  using sim_readQuoted_loop [OF sim_advance [OF assms], of dquote "[]"] sim_start [OF assms]
  by (simp add: readString_def Let_def split_beta sim_push_mkToken sim_close)

lemma sim_readCharLiteral:
  assumes "sim b s t"
  shows "sim b (readCharLiteral s) (readCharLiteral t)"
  using sim_readQuoted_loop [OF sim_advance [OF assms], of squote "[]"] sim_start [OF assms]
  by (simp add: readCharLiteral_def Let_def split_beta sim_push_mkToken sim_close)

lemma sim_readDelimiter:
  assumes "sim b s t" and "position s < length (code s)"
  shows "sim b (readDelimiter s) (readDelimiter t)"
  using sim_char [OF assms] sim_start [OF assms(1)] sim_advance [OF assms(1)]
  by (simp add: readDelimiter_def Let_def sim_push_mkToken)

lemma sim_readOperator:
  assumes "sim b s t" and "position s < length (code s)"
  shows "sim b (readOperator s) (readOperator t)"
proof -
  note a = sim_advance [OF assms(1)]
  note aa = sim_advance [OF a]
  have ch: "code s ! position s = code t ! position t"
    using sim_char [OF assms] .
  have r: "(position (advance s) < length (code (advance s)))
         = (position (advance t) < length (code (advance t)))"
    using sim_range [OF a] .
  have ch2: "position (advance s) < length (code (advance s)) \<Longrightarrow>
     code (advance s) ! position (advance s) = code (advance t) ! position (advance t)"
    using sim_char [OF a] .
  show ?thesis
    using a aa ch r ch2 sim_start [OF assms(1)]
    by (simp add: readOperator_def Let_def split_beta sim_push_mkToken)
qed


lemma sim_dispatch:
  assumes "sim b s t" and "position s < length (code s)"
  shows "sim b (dispatch s) (dispatch t)"
proof -
  have ch: "code t ! position t = code s ! position s"
    using sim_char [OF assms] by simp
  have nl: "sim b (advance (push s (mkToken NEWLINE [newline] (line s) (column s))))
                  (advance (push t (mkToken NEWLINE [newline] (line t) (column t))))"
    using sim_start [OF assms(1)] by (intro sim_advance sim_push_mkToken assms(1)) simp
  show ?thesis
    unfolding dispatch_def Let_def ch sim_peek [OF assms(1), symmetric]
    using assms nl
    by (simp add: sim_skipSingleLineComment sim_skipMultiLineComment sim_readIdentifier
         sim_readNumber sim_readString sim_readCharLiteral sim_readOperator sim_readDelimiter
         sim_advance)
qed

lemma sim_tokenize_loop:
  "sim b s t \<Longrightarrow> sim b (tokenize_loop s) (tokenize_loop t)"
proof (induction s arbitrary: t rule: tokenize_loop.induct)
  case (1 s)
  note st = 1(2)
  note w = sim_skipWhitespace [OF st]
  show ?case
  proof (cases "position s < length (code s)")
    case False
    with sim_range [OF st] have "\<not> position t < length (code t)"
      by simp
    then have "tokenize_loop t = t"
      by (subst tokenize_loop.simps) simp
    moreover from False have "tokenize_loop s = s"
      by (subst tokenize_loop.simps) simp
    ultimately show ?thesis using st by simp
  next
    case True
    with sim_range [OF st] have r: "position t < length (code t)"
      by simp
    show ?thesis
    proof (cases "length (code (skipWhitespace s)) \<le> position (skipWhitespace s)")
      case stop: True
      with sim_range [OF w]
      have "length (code (skipWhitespace t)) \<le> position (skipWhitespace t)"
        by simp
      with r have "tokenize_loop t = skipWhitespace t"
        by (subst tokenize_loop.simps) simp
      moreover from True stop have "tokenize_loop s = skipWhitespace s"
        by (subst tokenize_loop.simps) simp
      ultimately show ?thesis using w by simp
    next
      case go: False
      with sim_range [OF w]
      have "\<not> length (code (skipWhitespace t)) \<le> position (skipWhitespace t)"
        by simp
      with r have "tokenize_loop t = tokenize_loop (dispatch (skipWhitespace t))"
        by (subst tokenize_loop.simps) simp
      moreover from True go
      have "tokenize_loop s = tokenize_loop (dispatch (skipWhitespace s))"
        by (subst tokenize_loop.simps) simp
      moreover from go have "sim b (dispatch (skipWhitespace s)) (dispatch (skipWhitespace t))"
        by (intro sim_dispatch w) simp
      ultimately show ?thesis
        using 1(1) [OF True go] by simp
    qed
  qed
qed

lemma kind_eofToken: "kind eofToken = (EOF, None)"
  by (simp add: kind_def eofToken_def)

lemma sim_tokenize:
  assumes "sim b s t"
  shows "map kind (tokenize s) = map kind (tokenize t)"
    and "b \<Longrightarrow> tokenize s = tokenize t"
  using sim_tokenize_loop [OF assms] by (simp_all add: tokenize_def sim_def)


subsection \<open>A symbol the analyser does not know\<close>

text \<open>
  A character is unsupported when no branch of the dispatch but the last one takes it
  and \<open>skipWhitespace\<close> does not skip it. \<open>replaceAt s c\<close> is the state \<open>s\<close> with the
  current character replaced by \<open>c\<close>, and \<open>removeAt s\<close> the state \<open>s\<close> with the current
  character taken out of the text.
\<close>

definition unsupported :: "char \<Rightarrow> bool" where
  "unsupported c =
    (\<not> isSpace c \<and> \<not> isLetter c \<and> c \<noteq> CHR ''_'' \<and> \<not> isDigit c \<and> c \<noteq> dquote
     \<and> c \<noteq> squote \<and> \<not> isOperator c \<and> \<not> isDelimiter c \<and> c \<noteq> newline)"

definition replaceAt :: "lexer \<Rightarrow> char \<Rightarrow> lexer" where
  "replaceAt s c = s\<lparr>code := (code s)[position s := c]\<rparr>"

definition removeAt :: "lexer \<Rightarrow> lexer" where
  "removeAt s = s\<lparr>code := take (position s) (code s) @ drop (Suc (position s)) (code s)\<rparr>"

lemma dispatch_unsupported:
  "unsupported (code s ! position s) \<Longrightarrow> dispatch s = advance s"
  by (auto simp: dispatch_def unsupported_def Let_def isOperator_def)

lemma tokenize_loop_unsupported:
  assumes "position s < length (code s)" and "unsupported (code s ! position s)"
  shows "tokenize_loop s = tokenize_loop (advance s)"
proof -
  from assms have "skipWhitespace s = s"
    by (intro skipWhitespace_id) (simp_all add: unsupported_def)
  with assms show ?thesis
    by (subst tokenize_loop.simps) (simp add: dispatch_unsupported)
qed

lemma tokenize_loop_space:
  assumes "position s < length (code s)" and "isSpace (code s ! position s)"
    and "code s ! position s \<noteq> newline"
  shows "tokenize_loop s = tokenize_loop (advance s)"
proof -
  from assms have w: "skipWhitespace s = skipWhitespace (advance s)"
    by (subst skipWhitespace.simps) simp
  show ?thesis
  proof (cases "position (advance s) < length (code (advance s))")
    case True
    with assms(1) w show ?thesis
      by (subst tokenize_loop.simps, subst (2) tokenize_loop.simps) simp
  next
    case False
    then have "skipWhitespace (advance s) = advance s"
      by (subst skipWhitespace.simps) simp
    with False assms(1) w show ?thesis
      by (subst tokenize_loop.simps, subst (2) tokenize_loop.simps) simp
  qed
qed

lemma space_not_newline: "isSpace (CHR '' '')" "CHR '' '' \<noteq> newline"
  by (simp_all add: isSpace_def newline_def)

lemma unsupported_example: "unsupported (CHR ''@'')"
  by (simp add: unsupported_def isSpace_def isLetter_def isDigit_def dquote_def squote_def
      isOperator_def isDelimiter_def newline_def)

lemma sim_replaceAt:
  assumes "position s < length (code s)" and "code s ! position s \<noteq> newline"
    and "c \<noteq> newline"
  shows "sim True (advance s) (advance (replaceAt s c))"
  using assms
  by (simp add: sim_def ahead_def replaceAt_def advance_def charAt_def)

lemma sim_removeAt:
  assumes "position s < length (code s)"
  shows "sim False (advance s) (removeAt s)"
  using assms by (simp add: sim_def ahead_def removeAt_def advance_def min_def)

text \<open>
  So, from a state whose current character is unsupported, the analyser gives the
  tokens that it gives from the same state with a space in place of the character; and,
  up to lines and columns, those that it gives from the same state with the character
  taken out of the text.
\<close>

lemma stray_symbol_at_state:
  assumes "position s < length (code s)" and "unsupported (code s ! position s)"
  shows "tokenize s = tokenize (replaceAt s (CHR '' ''))
       \<and> map kind (tokenize s) = map kind (tokenize (removeAt s))"
proof -
  have nl: "code s ! position s \<noteq> newline"
    using assms(2) by (simp add: unsupported_def)
  have l: "tokenize s = tokenize (advance s)"
    using tokenize_loop_unsupported [OF assms] by (simp add: tokenize_def)
  have "tokenize_loop (replaceAt s (CHR '' '')) = tokenize_loop (advance (replaceAt s (CHR '' '')))"
    using assms(1) space_not_newline
    by (intro tokenize_loop_space) (simp_all add: replaceAt_def)
  then have r: "tokenize (replaceAt s (CHR '' '')) = tokenize (advance (replaceAt s (CHR '' '')))"
    by (simp add: tokenize_def)
  have "tokenize (advance s) = tokenize (advance (replaceAt s (CHR '' '')))"
    using sim_tokenize(2) [OF sim_replaceAt [OF assms(1) nl space_not_newline(2)]] by simp
  with l r have exact: "tokenize s = tokenize (replaceAt s (CHR '' ''))"
    by simp
  have "map kind (tokenize (advance s)) = map kind (tokenize (removeAt s))"
    using sim_tokenize(1) [OF sim_removeAt [OF assms(1)]] .
  with l exact show ?thesis
    by simp
qed

subsection \<open>A space in place of the symbol\<close>

text \<open>
  A character is inert when no branch of the dispatch but the last one takes it; a
  space is inert, and so is every unsupported character. \<open>withChar p d s\<close> is the state
  \<open>s\<close> with the character \<open>d\<close> at the index \<open>p\<close> of the text. When both \<open>d\<close> and the
  character it replaces are inert, every method of the analyser does the same on both
  texts, except \<open>skipWhitespace\<close>, when it comes to the index \<open>p\<close>, and the loop of
  \<open>readString\<close> and \<open>readCharLiteral\<close>, when it runs over the index \<open>p\<close> and copies the
  character into the value of the token.
\<close>

definition inert :: "char \<Rightarrow> bool" where
  "inert c =
    (\<not> isLetter c \<and> c \<noteq> CHR ''_'' \<and> \<not> isDigit c \<and> c \<noteq> dquote
     \<and> c \<noteq> squote \<and> \<not> isOperator c \<and> \<not> isDelimiter c \<and> c \<noteq> newline)"

definition withChar :: "nat \<Rightarrow> char \<Rightarrow> lexer \<Rightarrow> lexer" where
  "withChar p d s = s\<lparr>code := (code s)[p := d]\<rparr>"

lemma withChar_simps [simp]:
  "position (withChar p d s) = position s" "line (withChar p d s) = line s"
  "column (withChar p d s) = column s" "tokens (withChar p d s) = tokens s"
  "length (code (withChar p d s)) = length (code s)"
  by (simp_all add: withChar_def)

lemma code_withChar:
  "i < length (code s) \<Longrightarrow> code (withChar p d s) ! i = (if i = p then d else code s ! i)"
  by (simp add: withChar_def)

lemma code_withChar_advance [simp]:
  "code (withChar p d (advance s)) = code (withChar p d s)"
  by (simp add: withChar_def)

lemma push_withChar: "push (withChar p d s) t = withChar p d (push s t)"
  by (simp add: push_def withChar_def)

lemma inert_space: "inert (CHR '' '')"
  by (simp add: inert_def isLetter_def isDigit_def dquote_def squote_def
      isOperator_def isDelimiter_def newline_def)

lemma unsupported_inert: "unsupported c \<Longrightarrow> inert c"
  by (simp add: unsupported_def inert_def)

lemma advance_withChar:
  assumes "inert (code s ! p)" and "inert d"
  shows "advance (withChar p d s) = withChar p d (advance s)"
  using assms
  by (auto simp: advance_def charAt_def code_withChar inert_def split: if_splits)
     (simp_all add: withChar_def)

lemma code_advance_nth: "code (advance s) ! i = code s ! i"
  by simp

lemma skipSingleLineComment_withChar:
  assumes "inert (code s ! p)" and "inert d"
  shows "skipSingleLineComment (withChar p d s) = withChar p d (skipSingleLineComment s)"
  using assms
proof (induction s rule: skipSingleLineComment.induct)
  case (1 s)
  have t: "(position s < length (code s) \<and> code (withChar p d s) ! position s \<noteq> newline)
         = (position s < length (code s) \<and> code s ! position s \<noteq> newline)"
    using 1(2,3) by (auto simp: code_withChar inert_def split: if_splits)
  show ?case
  proof (cases "position s < length (code s) \<and> code s ! position s \<noteq> newline")
    case True
    then have "skipSingleLineComment s = skipSingleLineComment (advance s)"
      by (subst skipSingleLineComment.simps) simp
    moreover from True t
    have "skipSingleLineComment (withChar p d s) = skipSingleLineComment (advance (withChar p d s))"
      by (subst skipSingleLineComment.simps) simp
    ultimately show ?thesis
      using 1(1) [OF True] 1(2,3) by (simp add: advance_withChar)
  next
    case False
    then have "skipSingleLineComment s = s"
      by (subst skipSingleLineComment.simps) auto
    moreover from False t
    have "skipSingleLineComment (withChar p d s) = withChar p d s"
      by (subst skipSingleLineComment.simps) auto
    ultimately show ?thesis by simp
  qed
qed


lemma inert_tests:
  assumes "inert c"
  shows "c \<noteq> CHR ''*''" "c \<noteq> CHR ''/''" "c \<noteq> newline" "c \<noteq> dquote" "c \<noteq> squote"
    "\<not> isLetter c" "\<not> isDigit c" "c \<noteq> CHR ''_''" "c \<noteq> CHR ''.''"
    "\<not> isOperator c" "\<not> isDelimiter c"
  using assms by (auto simp: inert_def isOperator_def isDelimiter_def)

lemma charAt_withChar:
  assumes "inert (code s ! p)" and "inert d" and "\<not> inert c"
  shows "(charAt (withChar p d s) i = Some c) = (charAt s i = Some c)"
  using assms by (auto simp: charAt_def code_withChar)

lemma cur_withChar:
  assumes "position s < length (code s)" and "position s \<noteq> p"
  shows "code (withChar p d s) ! position s = code s ! position s"
  using assms by (simp add: code_withChar)

lemma skipMultiLineComment_loop_withChar:
  assumes "inert (code s ! p)" and "inert d"
  shows "skipMultiLineComment_loop (withChar p d s) = withChar p d (skipMultiLineComment_loop s)"
  using assms
proof (induction s rule: skipMultiLineComment_loop.induct)
  case (1 s)
  note i = 1(2,3)
  show ?case
  proof (cases "position s < length (code s) - 1")
    case False
    then have "skipMultiLineComment_loop s = s"
      by (subst skipMultiLineComment_loop.simps) simp
    moreover from False
    have "skipMultiLineComment_loop (withChar p d s) = withChar p d s"
      by (subst skipMultiLineComment_loop.simps) simp
    ultimately show ?thesis by simp
  next
    case True
    then have r: "position s < length (code s)" by simp
    have t: "(code (withChar p d s) ! position s = CHR ''*''
              \<and> charAt (withChar p d s) (position s + 1) = Some (CHR ''/''))
           = (code s ! position s = CHR ''*'' \<and> charAt s (position s + 1) = Some (CHR ''/''))"
      using i inert_tests(1,2) [OF i(1)] inert_tests(1,2) [OF i(2)] r
      by (auto simp: charAt_def code_withChar split: if_splits)
    show ?thesis
    proof (cases "code s ! position s = CHR ''*'' \<and> charAt s (position s + 1) = Some (CHR ''/'')")
      case close: True
      with True have "skipMultiLineComment_loop s = advance (advance s)"
        by (subst skipMultiLineComment_loop.simps) simp
      moreover from close t True
      have "skipMultiLineComment_loop (withChar p d s) = advance (advance (withChar p d s))"
        by (subst skipMultiLineComment_loop.simps) simp
      ultimately show ?thesis
        using i by (simp add: advance_withChar)
    next
      case go: False
      with True have "skipMultiLineComment_loop s = skipMultiLineComment_loop (advance s)"
        by (subst skipMultiLineComment_loop.simps) auto
      moreover from go t True
      have "skipMultiLineComment_loop (withChar p d s)
          = skipMultiLineComment_loop (advance (withChar p d s))"
        by (subst skipMultiLineComment_loop.simps) auto
      ultimately show ?thesis
        using 1(1) [OF True go] i by (simp add: advance_withChar)
    qed
  qed
qed

lemma skipMultiLineComment_withChar:
  assumes "inert (code s ! p)" and "inert d"
  shows "skipMultiLineComment (withChar p d s) = withChar p d (skipMultiLineComment s)"
  using assms
  by (simp add: skipMultiLineComment_def advance_withChar skipMultiLineComment_loop_withChar)

lemma readIdentifier_loop_withChar:
  assumes "inert (code s ! p)" and "inert d"
  shows "readIdentifier_loop (withChar p d s) v
       = (withChar p d (fst (readIdentifier_loop s v)), snd (readIdentifier_loop s v))"
  using assms
proof (induction s v rule: readIdentifier_loop.induct)
  case (1 s v)
  note i = 1(2,3)
  let ?T = "\<lambda>c. isLetter c \<or> isDigit c \<or> c = CHR ''_''"
  have t: "(position s < length (code s) \<and> ?T (code (withChar p d s) ! position s))
         = (position s < length (code s) \<and> ?T (code s ! position s))"
    using inert_tests [OF i(1)] inert_tests [OF i(2)]
    by (auto simp: code_withChar split: if_splits)
  show ?case
  proof (cases "position s < length (code s) \<and> ?T (code s ! position s)")
    case False
    then have "readIdentifier_loop s v = (s, v)"
      by (subst readIdentifier_loop.simps) auto
    moreover from False t have "readIdentifier_loop (withChar p d s) v = (withChar p d s, v)"
      by (subst readIdentifier_loop.simps) auto
    ultimately show ?thesis by simp
  next
    case True
    with inert_tests [OF i(1)] have np: "position s \<noteq> p"
      by auto
    from True
    have "readIdentifier_loop s v = readIdentifier_loop (advance s) (v @ [code s ! position s])"
      by (subst readIdentifier_loop.simps) auto
    moreover from True t
    have "readIdentifier_loop (withChar p d s) v
        = readIdentifier_loop (advance (withChar p d s)) (v @ [code (withChar p d s) ! position s])"
      by (subst readIdentifier_loop.simps) auto
    ultimately show ?thesis
      using 1(1) [OF True] i np True by (simp add: advance_withChar cur_withChar)
  qed
qed

lemma readNumber_loop_withChar:
  assumes "inert (code s ! p)" and "inert d"
  shows "readNumber_loop (withChar p d s) v h
       = (withChar p d (fst (readNumber_loop s v h)), snd (readNumber_loop s v h))"
  using assms
proof (induction s v h rule: readNumber_loop.induct)
  case (1 s v h)
  note i = 1(2,3)
  let ?T = "\<lambda>c. isDigit c \<or> (c = CHR ''.'' \<and> \<not> h)"
  have t: "(position s < length (code s) \<and> ?T (code (withChar p d s) ! position s))
         = (position s < length (code s) \<and> ?T (code s ! position s))"
    using inert_tests [OF i(1)] inert_tests [OF i(2)]
    by (auto simp: code_withChar split: if_splits)
  show ?case
  proof (cases "position s < length (code s) \<and> ?T (code s ! position s)")
    case False
    then have "readNumber_loop s v h = (s, v)"
      by (subst readNumber_loop.simps) auto
    moreover from False t have "readNumber_loop (withChar p d s) v h = (withChar p d s, v)"
      by (subst readNumber_loop.simps) auto
    ultimately show ?thesis by simp
  next
    case True
    with inert_tests [OF i(1)] have np: "position s \<noteq> p"
      by auto
    from True
    have "readNumber_loop s v h = readNumber_loop (advance s) (v @ [code s ! position s])
            (if code s ! position s = CHR ''.'' then True else h)"
      by (subst readNumber_loop.simps) auto
    moreover from True t
    have "readNumber_loop (withChar p d s) v h
        = readNumber_loop (advance (withChar p d s)) (v @ [code (withChar p d s) ! position s])
            (if code (withChar p d s) ! position s = CHR ''.'' then True else h)"
      by (subst readNumber_loop.simps) auto
    ultimately show ?thesis
      using 1(1) [OF True] i np True by (simp add: advance_withChar cur_withChar)
  qed
qed


lemma skipWhitespace_withChar:
  assumes "inert (code s ! p)" and "inert d"
    and "p < position s \<or> position (skipWhitespace s) < p"
  shows "skipWhitespace (withChar p d s) = withChar p d (skipWhitespace s)"
  using assms
proof (induction s rule: skipWhitespace.induct)
  case (1 s)
  note i = 1(2,3)
  let ?T = "\<lambda>c. isSpace c \<and> c \<noteq> newline"
  have np: "position s \<noteq> p"
    using 1(4) skipWhitespace_frame [of s] by auto
  then have t: "(position s < length (code s) \<and> ?T (code (withChar p d s) ! position s))
         = (position s < length (code s) \<and> ?T (code s ! position s))"
    by (auto simp: code_withChar)
  show ?case
  proof (cases "position s < length (code s) \<and> ?T (code s ! position s)")
    case False
    then have "skipWhitespace s = s"
      by (subst skipWhitespace.simps) auto
    moreover from False t have "skipWhitespace (withChar p d s) = withChar p d s"
      by (subst skipWhitespace.simps) auto
    ultimately show ?thesis by simp
  next
    case True
    then have e: "skipWhitespace s = skipWhitespace (advance s)"
      by (subst skipWhitespace.simps) auto
    moreover from True t
    have "skipWhitespace (withChar p d s) = skipWhitespace (advance (withChar p d s))"
      by (subst skipWhitespace.simps) auto
    moreover have c: "p < position (advance s) \<or> position (skipWhitespace (advance s)) < p"
      using 1(4) e np by auto
    ultimately show ?thesis
      using 1(1) [OF True _ _ c] True i by (simp add: advance_withChar)
  qed
qed

lemma readQuoted_loop_withChar:
  assumes "inert (code s ! p)" and "inert d"
    and "p < position s \<or> position (fst (readQuoted_loop q s v)) \<le> p"
    and "\<not> inert q"
  shows "readQuoted_loop q (withChar p d s) v
       = (withChar p d (fst (readQuoted_loop q s v)), snd (readQuoted_loop q s v))"
  using assms
proof (induction q s v rule: readQuoted_loop.induct)
  case (1 q s v)
  note i = 1(4,5)
  note a = advance_withChar [OF i]
  show ?case
  proof (cases "position s < length (code s) \<and> code s ! position s \<noteq> q")
    case False
    then have e: "readQuoted_loop q s v = (s, v)"
      by (subst readQuoted_loop.simps) auto
    have "position s \<noteq> p \<or> \<not> position s < length (code s)"
      using False i(1) 1(7) by auto
    with False
    have "\<not> (position s < length (code s) \<and> code (withChar p d s) ! position s \<noteq> q)"
      by (auto simp: code_withChar)
    then have "readQuoted_loop q (withChar p d s) v = (withChar p d s, v)"
      by (subst readQuoted_loop.simps) auto
    with e show ?thesis by simp
  next
    case go: True
    show ?thesis
    proof (cases "code s ! position s = backslash \<and> position s + 1 < length (code s)")
      case False
      with go
      have e: "readQuoted_loop q s v = readQuoted_loop q (advance s) (v @ [code s ! position s])"
        by (subst readQuoted_loop.simps) auto
      have np: "position s \<noteq> p"
        using 1(6) e readQuoted_loop_frame [of q "advance s" "v @ [code s ! position s]"]
        by auto
      with go have c: "code (withChar p d s) ! position s = code s ! position s"
        by (simp add: cur_withChar)
      from go False c
      have "readQuoted_loop q (withChar p d s) v
          = readQuoted_loop q (advance (withChar p d s)) (v @ [code s ! position s])"
        by (subst readQuoted_loop.simps) auto
      moreover
      have c2: "p < position (advance s)
          \<or> position (fst (readQuoted_loop q (advance s) (v @ [code s ! position s]))) \<le> p"
        using 1(6) e by auto
      ultimately show ?thesis
        using 1(3) [OF go False _ _ c2 1(7)] e i a by simp
    next
      case esc: True
      then have r: "position (advance s) < length (code (advance s))"
        by simp
      from go esc r
      have e: "readQuoted_loop q s v = readQuoted_loop q (advance (advance s))
              ((v @ [code s ! position s]) @ [code (advance s) ! position (advance s)])"
        by (subst readQuoted_loop.simps) auto
      have np: "position s \<noteq> p \<and> position s + 1 \<noteq> p"
        using 1(6) e readQuoted_loop_frame [of q "advance (advance s)"
            "(v @ [code s ! position s]) @ [code (advance s) ! position (advance s)]"]
        by auto
      with go esc have c: "code (withChar p d s) ! position s = code s ! position s"
        "code (withChar p d s) ! (position s + 1) = code s ! (position s + 1)"
        by (simp_all add: code_withChar)
      from go esc r c
      have "readQuoted_loop q (withChar p d s) v
          = readQuoted_loop q (advance (advance (withChar p d s)))
              ((v @ [code s ! position s]) @ [code (advance s) ! position (advance s)])"
        by (subst readQuoted_loop.simps) auto
      moreover
      have c2: "p < position (advance (advance s))
          \<or> position (fst (readQuoted_loop q (advance (advance s))
              ((v @ [code s ! position s]) @ [code (advance s) ! position (advance s)]))) \<le> p"
        using 1(6) e by auto
      ultimately show ?thesis
        using 1(1) [OF go esc r _ _ c2 1(7)] e i a advance_withChar [of "advance s" p d]
        by simp
    qed
  qed
qed


lemma readIdentifier_withChar:
  assumes "inert (code s ! p)" and "inert d"
  shows "readIdentifier (withChar p d s) = withChar p d (readIdentifier s)"
  using readIdentifier_loop_withChar [OF assms, of "[]"]
  by (simp add: readIdentifier_def Let_def split_beta push_withChar)

lemma readNumber_withChar:
  assumes "inert (code s ! p)" and "inert d"
  shows "readNumber (withChar p d s) = withChar p d (readNumber s)"
  using readNumber_loop_withChar [OF assms, of "[]" False]
  by (simp add: readNumber_def Let_def split_beta push_withChar)

lemma not_inert_quotes: "\<not> inert dquote" "\<not> inert squote"
  by (simp_all add: inert_def)

lemma readString_withChar:
  assumes "inert (code s ! p)" and "inert d"
    and "p < position s \<or> position (readString s) \<le> p"
  shows "readString (withChar p d s) = withChar p d (readString s)"
proof -
  have "p < position (advance s)
      \<or> position (fst (readQuoted_loop dquote (advance s) [])) \<le> p"
    using assms(3) by (auto simp: readString_def Let_def split_beta split: if_splits)
  from readQuoted_loop_withChar [OF _ assms(2) this not_inert_quotes(1)] assms(1,2)
  have "readQuoted_loop dquote (advance (withChar p d s)) []
      = (withChar p d (fst (readQuoted_loop dquote (advance s) [])),
         snd (readQuoted_loop dquote (advance s) []))"
    by (simp add: advance_withChar)
  moreover have "inert (code (fst (readQuoted_loop dquote (advance s) [])) ! p)"
    using assms(1) readQuoted_loop_frame [of dquote "advance s" "[]"] by simp
  ultimately show ?thesis
    using assms(2)
    by (simp add: readString_def Let_def split_beta push_withChar advance_withChar)
qed

lemma readCharLiteral_withChar:
  assumes "inert (code s ! p)" and "inert d"
    and "p < position s \<or> position (readCharLiteral s) \<le> p"
  shows "readCharLiteral (withChar p d s) = withChar p d (readCharLiteral s)"
proof -
  have "p < position (advance s)
      \<or> position (fst (readQuoted_loop squote (advance s) [])) \<le> p"
    using assms(3) by (auto simp: readCharLiteral_def Let_def split_beta split: if_splits)
  from readQuoted_loop_withChar [OF _ assms(2) this not_inert_quotes(2)] assms(1,2)
  have "readQuoted_loop squote (advance (withChar p d s)) []
      = (withChar p d (fst (readQuoted_loop squote (advance s) [])),
         snd (readQuoted_loop squote (advance s) []))"
    by (simp add: advance_withChar)
  moreover have "inert (code (fst (readQuoted_loop squote (advance s) [])) ! p)"
    using assms(1) readQuoted_loop_frame [of squote "advance s" "[]"] by simp
  ultimately show ?thesis
    using assms(2)
    by (simp add: readCharLiteral_def Let_def split_beta push_withChar advance_withChar)
qed

lemma readDelimiter_withChar:
  assumes "inert (code s ! p)" and "inert d"
    and "position s < length (code s)" and "position s \<noteq> p"
  shows "readDelimiter (withChar p d s) = withChar p d (readDelimiter s)"
  using assms
  by (simp add: readDelimiter_def Let_def push_withChar advance_withChar cur_withChar)

lemma twoCharOperators_second: "[a, b] \<in> set twoCharOperators \<Longrightarrow> isOperator b"
  by (auto simp: twoCharOperators_def isOperator_def)

lemma readOperator_withChar:
  assumes "inert (code s ! p)" and "inert d"
    and "position s < length (code s)" and "position s \<noteq> p"
  shows "readOperator (withChar p d s) = withChar p d (readOperator s)"
proof -
  note a = advance_withChar [OF assms(1,2)]
  have c: "code (withChar p d s) ! position s = code s ! position s"
    using assms(3,4) by (rule cur_withChar)
  have two: "([code s ! position s, code (withChar p d s) ! (position s + 1)]
                \<in> set twoCharOperators)
           = ([code s ! position s, code s ! (position s + 1)] \<in> set twoCharOperators)"
    if "position s + 1 < length (code s)"
    using that assms(1,2) twoCharOperators_second inert_tests(10)
    by (auto simp: code_withChar split: if_splits)
  show ?thesis
  proof (cases "position s + 1 < length (code s)")
    case False
    then show ?thesis
      using assms(1,2) c
      by (simp add: readOperator_def Let_def a push_withChar)
  next
    case True
    show ?thesis
    proof (cases "[code s ! position s, code s ! (position s + 1)] \<in> set twoCharOperators")
      case in2: True
      with True twoCharOperators_second have "isOperator (code s ! (position s + 1))"
        by blast
      with assms(1) inert_tests(10) have "position s + 1 \<noteq> p"
        by auto
      with True have "code (withChar p d s) ! (position s + 1) = code s ! (position s + 1)"
        by (simp add: code_withChar)
      with True in2 show ?thesis
        using assms(1,2) c a advance_withChar [of "advance s" p d]
        by (simp add: readOperator_def Let_def push_withChar)
    next
      case False
      with two [OF True] True show ?thesis
        using assms(1,2) c a
        by (simp add: readOperator_def Let_def push_withChar)
    qed
  qed
qed


lemma dispatch_dquote: "code s ! position s = dquote \<Longrightarrow> dispatch s = readString s"
  by (simp add: dispatch_def Let_def dquote_def isLetter_def isDigit_def)

lemma dispatch_squote: "code s ! position s = squote \<Longrightarrow> dispatch s = readCharLiteral s"
  by (simp add: dispatch_def Let_def dquote_def squote_def isLetter_def isDigit_def)

lemma not_inert_comment: "\<not> inert (CHR ''/'')" "\<not> inert (CHR ''*'')"
  by (simp_all add: inert_def isOperator_def)

lemma dispatch_withChar:
  assumes "inert (code s ! p)" and "inert d" and "position s < length (code s)"
    and "p < position s \<or> position (dispatch s) \<le> p"
  shows "dispatch (withChar p d s) = withChar p d (dispatch s)"
proof -
  note i = assms(1,2)
  have np: "position s \<noteq> p"
    using assms(4) dispatch_frame [OF assms(3)] by auto
  have c: "code (withChar p d s) ! position s = code s ! position s"
    using assms(3) np by (rule cur_withChar)
  have pk: "(peek (withChar p d s) = Some (CHR ''/'')) = (peek s = Some (CHR ''/''))"
    "(peek (withChar p d s) = Some (CHR ''*'')) = (peek s = Some (CHR ''*''))"
    unfolding peek_def
    by (simp_all add: charAt_withChar [OF i not_inert_comment(1)]
          charAt_withChar [OF i not_inert_comment(2)])
  have str: "readString (withChar p d s) = withChar p d (readString s)"
    if "code s ! position s = dquote"
    using assms(4) dispatch_dquote [OF that] by (intro readString_withChar i) simp
  have chr: "readCharLiteral (withChar p d s) = withChar p d (readCharLiteral s)"
    if "code s ! position s = squote"
    using assms(4) dispatch_squote [OF that] by (intro readCharLiteral_withChar i) simp
  have nl: "advance (push (withChar p d s) (mkToken NEWLINE [newline] (line s) (column s)))
          = withChar p d (advance (push s (mkToken NEWLINE [newline] (line s) (column s))))"
    using advance_withChar [of "push s (mkToken NEWLINE [newline] (line s) (column s))" p d] i
    by (simp add: push_withChar)
  show ?thesis
    unfolding dispatch_def Let_def c pk withChar_simps if_distrib [of "withChar p d"]
  proof (intro if_cong refl)
    show "skipSingleLineComment (withChar p d s) = withChar p d (skipSingleLineComment s)"
      using i by (rule skipSingleLineComment_withChar)
    show "skipMultiLineComment (withChar p d s) = withChar p d (skipMultiLineComment s)"
      using i by (rule skipMultiLineComment_withChar)
    show "readIdentifier (withChar p d s) = withChar p d (readIdentifier s)"
      using i by (rule readIdentifier_withChar)
    show "readNumber (withChar p d s) = withChar p d (readNumber s)"
      using i by (rule readNumber_withChar)
    show "readString (withChar p d s) = withChar p d (readString s)"
      if "code s ! position s = dquote"
      using that by (rule str)
    show "readCharLiteral (withChar p d s) = withChar p d (readCharLiteral s)"
      if "code s ! position s = squote"
      using that by (rule chr)
    show "readOperator (withChar p d s) = withChar p d (readOperator s)"
      using i assms(3) np by (rule readOperator_withChar)
    show "readDelimiter (withChar p d s) = withChar p d (readDelimiter s)"
      using i assms(3) np by (rule readDelimiter_withChar)
    show "advance (push (withChar p d s) (mkToken NEWLINE [newline] (line s) (column s)))
        = withChar p d (advance (push s (mkToken NEWLINE [newline] (line s) (column s))))"
      by (rule nl)
    show "advance (withChar p d s) = withChar p d (advance s)"
      using i by (rule advance_withChar)
  qed
qed


lemma tokenize_loop_withChar:
  assumes "inert (code s ! p)" and "inert d" and "p < position s"
  shows "tokenize_loop (withChar p d s) = withChar p d (tokenize_loop s)"
  using assms
proof (induction s rule: tokenize_loop.induct)
  case (1 s)
  note i = 1(2,3)
  show ?case
  proof (cases "position s < length (code s)")
    case False
    then have "tokenize_loop s = s" "tokenize_loop (withChar p d s) = withChar p d s"
      by (simp_all add: tokenize_loop_at_end)
    then show ?thesis by simp
  next
    case True
    have w: "skipWhitespace (withChar p d s) = withChar p d (skipWhitespace s)"
      using i 1(4) by (intro skipWhitespace_withChar) simp_all
    note f = skipWhitespace_frame [of s]
    show ?thesis
    proof (cases "length (code (skipWhitespace s)) \<le> position (skipWhitespace s)")
      case stop: True
      with True have "tokenize_loop s = skipWhitespace s"
        by (subst tokenize_loop.simps) simp
      moreover from True stop w
      have "tokenize_loop (withChar p d s) = withChar p d (skipWhitespace s)"
        by (subst tokenize_loop.simps) simp
      ultimately show ?thesis by simp
    next
      case go: False
      with True have e: "tokenize_loop s = tokenize_loop (dispatch (skipWhitespace s))"
        by (subst tokenize_loop.simps) simp
      have d: "dispatch (withChar p d (skipWhitespace s)) = withChar p d (dispatch (skipWhitespace s))"
        using i f go 1(4) by (intro dispatch_withChar) simp_all
      from True go w d
      have "tokenize_loop (withChar p d s)
          = tokenize_loop (withChar p d (dispatch (skipWhitespace s)))"
        by (subst tokenize_loop.simps) simp
      moreover have "p < position (dispatch (skipWhitespace s))"
        using dispatch_frame [of "skipWhitespace s"] go f 1(4) by simp
      moreover have "code (dispatch (skipWhitespace s)) = code s"
        using dispatch_frame [of "skipWhitespace s"] go f by simp
      ultimately show ?thesis
        using 1(1) [OF True go] i e by simp
    qed
  qed
qed

text \<open>
  \<open>dispatchStates s\<close> lists the states in which the loop of \<open>tokenize\<close>, started in
  \<open>s\<close>, comes to its dispatch on the current character, and \<open>dispatchPositions c\<close> the
  positions of these states for the text \<open>c\<close>: the indices at which a token or a comment
  begins or a single character is skipped, and not those inside a token or a comment.
\<close>

function dispatchStates :: "lexer \<Rightarrow> lexer list" where
  "dispatchStates s =
    (if position s < length (code s) then
       (if position (skipWhitespace s) \<ge> length (code (skipWhitespace s))
        then []
        else skipWhitespace s # dispatchStates (dispatch (skipWhitespace s)))
     else [])"
  by pat_completeness auto
termination
proof (relation "measure (\<lambda>s. length (code s) - position s)")
  fix s :: lexer
  assume "position s < length (code s)"
    and "\<not> length (code (skipWhitespace s)) \<le> position (skipWhitespace s)"
  then show "(dispatch (skipWhitespace s), s) \<in> measure (\<lambda>s. length (code s) - position s)"
    using dispatch_frame [of "skipWhitespace s"] skipWhitespace_frame [of s]
    by auto
qed simp

declare dispatchStates.simps [simp del]

definition dispatchPositions :: "string \<Rightarrow> nat list" where
  "dispatchPositions c = map position (dispatchStates (LexicalAnalyzer c))"


lemma skipWhitespace_idem: "skipWhitespace (skipWhitespace s) = skipWhitespace s"
proof (induction s rule: skipWhitespace.induct)
  case (1 s)
  show ?case
  proof (cases "position s < length (code s) \<and> isSpace (code s ! position s)
      \<and> code s ! position s \<noteq> newline")
    case True
    then have "skipWhitespace s = skipWhitespace (advance s)"
      by (subst skipWhitespace.simps) simp
    with 1 [OF True] show ?thesis by simp
  next
    case False
    then have "skipWhitespace s = s"
      by (subst skipWhitespace.simps) auto
    then show ?thesis by simp
  qed
qed

lemma tokenize_loop_skipWhitespace: "tokenize_loop (skipWhitespace s) = tokenize_loop s"
proof (cases "position s < length (code s)")
  case False
  then have "skipWhitespace s = s"
    by (subst skipWhitespace.simps) simp
  then show ?thesis by simp
next
  case True
  note f = skipWhitespace_frame [of s]
  show ?thesis
  proof (cases "length (code (skipWhitespace s)) \<le> position (skipWhitespace s)")
    case stop: True
    with True have "tokenize_loop s = skipWhitespace s"
      by (subst tokenize_loop.simps) simp
    with stop show ?thesis
      by (simp add: tokenize_loop_at_end)
  next
    case go: False
    with True have "tokenize_loop s = tokenize_loop (dispatch (skipWhitespace s))"
      by (subst tokenize_loop.simps) simp
    moreover from go
    have "tokenize_loop (skipWhitespace s) = tokenize_loop (dispatch (skipWhitespace s))"
      by (subst tokenize_loop.simps) (simp add: skipWhitespace_idem)
    ultimately show ?thesis by simp
  qed
qed

lemma dispatchStates_cases:
  assumes "w \<in> set (dispatchStates s)"
  shows "position s < length (code s)
       \<and> position (skipWhitespace s) < length (code (skipWhitespace s))
       \<and> (w = skipWhitespace s \<or> w \<in> set (dispatchStates (dispatch (skipWhitespace s))))"
  using assms by (subst (asm) dispatchStates.simps) (auto split: if_splits)

lemma dispatchStates_frame:
  "w \<in> set (dispatchStates s) \<Longrightarrow>
   code w = code s \<and> position s \<le> position w \<and> position w < length (code w)"
proof (induction s rule: dispatchStates.induct)
  case (1 s)
  note c = dispatchStates_cases [OF 1(2)]
  note f = skipWhitespace_frame [of s]
  from c have go: "\<not> length (code (skipWhitespace s)) \<le> position (skipWhitespace s)"
    by simp
  from c show ?case
  proof (elim conjE disjE)
    assume "w = skipWhitespace s"
    with c f show ?thesis by simp
  next
    assume "w \<in> set (dispatchStates (dispatch (skipWhitespace s)))"
    from 1(1) [OF _ go this] c dispatch_frame [of "skipWhitespace s"] f
    show ?thesis by auto
  qed
qed

lemma tokenize_loop_dispatchStates:
  "w \<in> set (dispatchStates s) \<Longrightarrow> tokenize_loop w = tokenize_loop s"
proof (induction s rule: dispatchStates.induct)
  case (1 s)
  note c = dispatchStates_cases [OF 1(2)]
  from c have go: "\<not> length (code (skipWhitespace s)) \<le> position (skipWhitespace s)"
    by simp
  from c go have e: "tokenize_loop s = tokenize_loop (dispatch (skipWhitespace s))"
    by (subst tokenize_loop.simps) simp
  from c show ?case
  proof (elim conjE disjE)
    assume "w = skipWhitespace s"
    then show ?thesis by (simp add: tokenize_loop_skipWhitespace)
  next
    assume "w \<in> set (dispatchStates (dispatch (skipWhitespace s)))"
    from 1(1) [OF _ go this] c e show ?thesis by simp
  qed
qed

lemma skipWhitespace_withChar_upto:
  assumes "inert (code s ! p)" and "inert d" and "\<not> isSpace (code s ! p)"
  shows "skipWhitespace (withChar p d s) = skipWhitespace (withChar p d (skipWhitespace s))"
  using assms
proof (induction s rule: skipWhitespace.induct)
  case (1 s)
  show ?case
  proof (cases "position s < length (code s) \<and> isSpace (code s ! position s)
      \<and> code s ! position s \<noteq> newline")
    case False
    then have "skipWhitespace s = s"
      by (subst skipWhitespace.simps) auto
    then show ?thesis by simp
  next
    case True
    with 1(4) have np: "position s \<noteq> p"
      by auto
    from True have e: "skipWhitespace s = skipWhitespace (advance s)"
      by (subst skipWhitespace.simps) simp
    from True np
    have "skipWhitespace (withChar p d s) = skipWhitespace (advance (withChar p d s))"
      by (subst skipWhitespace.simps) (simp add: cur_withChar)
    with 1(1) [OF True] 1(2,3,4) e show ?thesis
      by (simp add: advance_withChar)
  qed
qed

lemma tokenize_loop_at_symbol:
  assumes "w \<in> set (dispatchStates s)" and "position w = p" and "unsupported (code s ! p)"
    and "inert d" and "isSpace d"
  shows "tokenize_loop (withChar p d s) = withChar p d (tokenize_loop s)"
  using assms(1,3)
proof (induction s rule: tokenize_loop.induct)
  case (1 s)
  note c = dispatchStates_cases [OF 1(2)]
  note f = skipWhitespace_frame [of s]
  note u = 1(3)
  note i = unsupported_inert [OF u] assms(4)
  let ?h = "skipWhitespace s"
  from c have r: "position s < length (code s)"
    and go: "\<not> length (code ?h) \<le> position ?h"
    by simp_all
  from r go have e: "tokenize_loop s = tokenize_loop (dispatch ?h)"
    by (subst tokenize_loop.simps) simp
  from c show ?case
  proof (elim conjE disjE)
    assume "w = ?h"
    with assms(2) have ph: "position ?h = p"
      by simp
    have nsp: "\<not> isSpace (code s ! p)"
      using u by (simp add: unsupported_def)
    have "tokenize_loop (withChar p d s) = tokenize_loop (skipWhitespace (withChar p d s))"
      by (simp add: tokenize_loop_skipWhitespace)
    also have "\<dots> = tokenize_loop (skipWhitespace (withChar p d ?h))"
      using skipWhitespace_withChar_upto [OF i nsp] by simp
    also have "\<dots> = tokenize_loop (withChar p d ?h)"
      by (simp add: tokenize_loop_skipWhitespace)
    also have "\<dots> = tokenize_loop (advance (withChar p d ?h))"
      using go ph f assms(5) inert_tests(3) [OF assms(4)]
      by (intro tokenize_loop_space) (simp_all add: code_withChar)
    also have "\<dots> = tokenize_loop (withChar p d (advance ?h))"
      using i f by (simp add: advance_withChar)
    also have "\<dots> = withChar p d (tokenize_loop (advance ?h))"
      using i f ph by (intro tokenize_loop_withChar) simp_all
    also have "tokenize_loop (advance ?h) = tokenize_loop ?h"
      using go ph f u by (intro tokenize_loop_unsupported [symmetric]) simp_all
    finally show ?thesis
      by (simp add: tokenize_loop_skipWhitespace)
  next
    assume m: "w \<in> set (dispatchStates (dispatch ?h))"
    from dispatchStates_frame [OF m] assms(2)
    have pd: "position (dispatch ?h) \<le> p"
      by simp
    with dispatch_frame [of ?h] go have hp: "position ?h < p"
      by simp
    have cd: "code (dispatch ?h) = code s"
      using dispatch_frame [of ?h] go f by simp
    have sw: "skipWhitespace (withChar p d s) = withChar p d ?h"
      using i hp by (intro skipWhitespace_withChar) simp_all
    have dw: "dispatch (withChar p d ?h) = withChar p d (dispatch ?h)"
      using i f go pd by (intro dispatch_withChar) simp_all
    from r go sw dw
    have "tokenize_loop (withChar p d s) = tokenize_loop (withChar p d (dispatch ?h))"
      by (subst tokenize_loop.simps) simp
    with 1(1) [OF r go m] u cd e show ?thesis
      by simp
  qed
qed



subsection \<open>The symbol skipped, replaced and removed\<close>

text \<open>
  Taking the symbol out of the text is not the same as skipping it. Between two letters
  the symbol separates two identifiers, which are one identifier without it; and the
  tokens that follow the symbol on its line stand one column further to the right.
\<close>

theorem stray_symbol_separates_identifiers:
  "tokenize (LexicalAnalyzer ''a@b'')
     = [mkToken IDENTIFIER ''a'' 1 1, mkToken IDENTIFIER ''b'' 1 3, eofToken]
   \<and> tokenize (LexicalAnalyzer ''ab'') = [mkToken IDENTIFIER ''ab'' 1 1, eofToken]"
  by code_simp

lemma stray_symbol_shifts_columns:
  "tokenize (LexicalAnalyzer ''a @ b'')
     = [mkToken IDENTIFIER ''a'' 1 1, mkToken IDENTIFIER ''b'' 1 5, eofToken]
   \<and> tokenize (LexicalAnalyzer ''a  b'')
     = [mkToken IDENTIFIER ''a'' 1 1, mkToken IDENTIFIER ''b'' 1 4, eofToken]"
  by code_simp

text \<open>Inside a string literal the symbol is no dispatch position, and it is kept.\<close>

lemma symbol_in_string_kept:
  "dispatchPositions ([dquote] @ ''@'' @ [dquote]) = [0]
   \<and> tokenize (LexicalAnalyzer ([dquote] @ ''@'' @ [dquote]))
       = [mkToken STRING ''@'' 1 1, eofToken]
   \<and> tokenize (LexicalAnalyzer ([dquote] @ '' '' @ [dquote]))
       = [mkToken STRING '' '' 1 1, eofToken]"
  by code_simp

text \<open>
  Claim C7, amended. For every text with an unsupported symbol at a position where the
  loop of \<open>tokenize\<close> dispatches, that is between tokens, \<open>tokenize\<close> returns the token
  list that it returns for the same text with a space in place of the symbol: the same
  tokens with the same lines and columns.
\<close>

theorem stray_symbol_as_space:
  assumes "p \<in> set (dispatchPositions c)" and "unsupported (c ! p)"
  shows "tokenize (LexicalAnalyzer c) = tokenize (LexicalAnalyzer (c[p := CHR '' '']))"
proof -
  from assms(1) obtain w where w: "w \<in> set (dispatchStates (LexicalAnalyzer c))"
    and pw: "position w = p"
    by (auto simp: dispatchPositions_def)
  have u: "unsupported (code (LexicalAnalyzer c) ! p)"
    using assms(2) by (simp add: LexicalAnalyzer_def)
  have "withChar p (CHR '' '') (LexicalAnalyzer c) = LexicalAnalyzer (c[p := CHR '' ''])"
    by (simp add: withChar_def LexicalAnalyzer_def)
  with tokenize_loop_at_symbol [OF w pw u inert_space space_not_newline(1)]
  show ?thesis
    by (simp add: tokenize_def)
qed

theorem stray_symbol_as_space_witness:
  "2 \<in> set (dispatchPositions ''x @ y'') \<and> unsupported (''x @ y'' ! 2)
   \<and> tokenize (LexicalAnalyzer ''x @ y'')
       = [mkToken IDENTIFIER ''x'' 1 1, mkToken IDENTIFIER ''y'' 1 5, eofToken]
   \<and> tokenize (LexicalAnalyzer ''x @ y'') = tokenize (LexicalAnalyzer (''x @ y''[2 := CHR '' '']))"
proof -
  have h: "2 \<in> set (dispatchPositions ''x @ y'')" "unsupported (''x @ y'' ! 2)"
    by code_simp+
  have t: "tokenize (LexicalAnalyzer ''x @ y'')
       = [mkToken IDENTIFIER ''x'' 1 1, mkToken IDENTIFIER ''y'' 1 5, eofToken]"
    by code_simp
  show ?thesis
    by (intro conjI) (rule h t stray_symbol_as_space [OF h])+
qed

section \<open>The syntax analyser\<close>

text \<open>
  A JavaScript exception is a value of the type \<open>error\<close>. The only statement of the
  analyser that can raise is \<open>token.value.includes('.')\<close> in \<open>parsePrimaryExpression\<close>,
  on a NUMBER token whose value is null.

  The parsing methods call each other recursively, and the position a call starts from
  is the position an earlier call has returned. They are therefore defined by recursion
  on a fuel argument, which every call of a recursive method decreases by one: the
  result \<open>None\<close> means that the fuel has run out, \<open>Some (Inl e)\<close> that the exception
  \<open>e\<close> was raised, and \<open>Some (Inr x)\<close> that \<open>x\<close> was returned. That the fuel given by
  \<open>parse\<close> never runs out is proved below.
\<close>

datatype error = TypeError

type_synonym 'a result = "(error + 'a) option"

definition ok :: "'a \<Rightarrow> 'a result" where
  "ok x = Some (Inr x)"

definition raise :: "error \<Rightarrow> 'a result" where
  "raise e = Some (Inl e)"

definition andThen :: "'a result \<Rightarrow> ('a \<Rightarrow> 'b result) \<Rightarrow> 'b result" where
  "andThen m k =
    (case m of None \<Rightarrow> None | Some (Inl e) \<Rightarrow> Some (Inl e) | Some (Inr x) \<Rightarrow> k x)"

subsection \<open>The syntax tree\<close>

text \<open>
  A node of the tree is an object with a \<open>type\<close> tag and the fields of its kind. A
  field that holds a child node or null is a \<open>node option\<close>; a field copied from
  \<open>token.value\<close> is a \<open>string option\<close>, null being \<open>None\<close>. The value of a numeric
  literal is \<open>parseFloat(text)\<close>, a floating-point number: \<open>NumberValue text\<close> keeps
  the text it was read from.
\<close>

datatype litvalue = NumberValue string | StringValue string | NullValue

record param =
  ptype :: string
  pname :: "string option"

datatype node =
    Include "string option"
  | Function "string option" "string option" "param list" "node list"
  | Block "node list"
  | Variable "string option" "string option" "node option"
  | IfStatement "node option" "node option" "node option"
  | WhileLoop "node option" "node option"
  | ForLoop "node option" "node option" "node option" "node option"
  | ReturnStatement "node option"
  | PrintfStatement "node list"
  | ScanfStatement "node list"
  | FunctionCall "string option" "node list"
  | Assignment "string option" string "node option"
  | BinaryExpression "node option" string "node option"
  | UnaryExpression string "node option"
  | Literal litvalue string
  | Identifier "string option"

text \<open>
  The root given to the code generator is an object whose \<open>body\<close> the generator
  tests with \<open>Array.isArray\<close>: the field is absent, holds something that is not an
  array, or holds an array of nodes.
\<close>

datatype body_field = BodyMissing | BodyNotArray | BodyArray "node list"

record ast =
  type :: string
  body :: body_field

subsection \<open>Reading tokens\<close>

definition getCurrentToken :: "token list \<Rightarrow> nat \<Rightarrow> token option" where
  "getCurrentToken toks pos = (if pos < length toks then Some (toks ! pos) else None)"

text \<open>\<open>hasValue t v\<close> is the test \<open>t && t.value === v\<close>.\<close>

definition hasValue :: "token option \<Rightarrow> string \<Rightarrow> bool" where
  "hasValue t v = (case t of None \<Rightarrow> False | Some tok \<Rightarrow> tvalue tok = Some v)"

text \<open>
  \<open>matchValue t vs\<close> is the test \<open>t && vs.includes(t.value)\<close>; when it holds, the
  result is \<open>t.value\<close>.
\<close>

definition matchValue :: "token option \<Rightarrow> string list \<Rightarrow> string option" where
  "matchValue t vs =
    (case t of
       None \<Rightarrow> None
     | Some tok \<Rightarrow>
         (case tvalue tok of
            None \<Rightarrow> None
          | Some v \<Rightarrow> if v \<in> set vs then Some v else None))"

definition skipToken :: "token list \<Rightarrow> nat \<Rightarrow> string \<Rightarrow> nat" where
  "skipToken toks pos expectedValue =
    (if hasValue (getCurrentToken toks pos) expectedValue then pos + 1 else pos)"

text \<open>\<open>if (n) xs.push(n)\<close>\<close>

definition pushNode :: "node list \<Rightarrow> node option \<Rightarrow> node list" where
  "pushNode xs n = (case n of None \<Rightarrow> xs | Some x \<Rightarrow> xs @ [x])"

subsection \<open>Expressions\<close>

text \<open>
  Each \<open>while (true)\<close> loop of a binary level is the function with the suffix
  \<open>_loop\<close>. The loop that collects call arguments is written three times in the
  source, with the same text, in \<open>parsePrintfStatement\<close>, \<open>parseScanfStatement\<close> and
  \<open>parseAssignmentOrFunctionCall\<close>: it is \<open>parseArguments_loop\<close>. In
  \<open>parsePrimaryExpression\<close> and \<open>parseAssignmentOrFunctionCall\<close> the source steps the
  position forward to look at the next token and back again; here the next token is
  read at \<open>pos + 1\<close>.
\<close>

function parseExpression :: "nat \<Rightarrow> token list \<Rightarrow> nat \<Rightarrow> (node option \<times> nat) result"
  and parseOrExpression :: "nat \<Rightarrow> token list \<Rightarrow> nat \<Rightarrow> (node option \<times> nat) result"
  and parseOrExpression_loop ::
    "nat \<Rightarrow> token list \<Rightarrow> nat \<Rightarrow> node option \<Rightarrow> (node option \<times> nat) result"
  and parseAndExpression :: "nat \<Rightarrow> token list \<Rightarrow> nat \<Rightarrow> (node option \<times> nat) result"
  and parseAndExpression_loop ::
    "nat \<Rightarrow> token list \<Rightarrow> nat \<Rightarrow> node option \<Rightarrow> (node option \<times> nat) result"
  and parseEqualityExpression :: "nat \<Rightarrow> token list \<Rightarrow> nat \<Rightarrow> (node option \<times> nat) result"
  and parseEqualityExpression_loop ::
    "nat \<Rightarrow> token list \<Rightarrow> nat \<Rightarrow> node option \<Rightarrow> (node option \<times> nat) result"
  and parseRelationalExpression :: "nat \<Rightarrow> token list \<Rightarrow> nat \<Rightarrow> (node option \<times> nat) result"
  and parseRelationalExpression_loop ::
    "nat \<Rightarrow> token list \<Rightarrow> nat \<Rightarrow> node option \<Rightarrow> (node option \<times> nat) result"
  and parseAdditiveExpression :: "nat \<Rightarrow> token list \<Rightarrow> nat \<Rightarrow> (node option \<times> nat) result"
  and parseAdditiveExpression_loop ::
    "nat \<Rightarrow> token list \<Rightarrow> nat \<Rightarrow> node option \<Rightarrow> (node option \<times> nat) result"
  and parseMultiplicativeExpression ::
    "nat \<Rightarrow> token list \<Rightarrow> nat \<Rightarrow> (node option \<times> nat) result"
  and parseMultiplicativeExpression_loop ::
    "nat \<Rightarrow> token list \<Rightarrow> nat \<Rightarrow> node option \<Rightarrow> (node option \<times> nat) result"
  and parsePrimaryExpression :: "nat \<Rightarrow> token list \<Rightarrow> nat \<Rightarrow> (node option \<times> nat) result"
  and parseAssignmentOrFunctionCall ::
    "nat \<Rightarrow> token list \<Rightarrow> nat \<Rightarrow> (node option \<times> nat) result"
  and parseArguments_loop ::
    "nat \<Rightarrow> token list \<Rightarrow> nat \<Rightarrow> node list \<Rightarrow> (node list \<times> nat) result"
where
  "parseExpression 0 toks pos = None"
| "parseExpression (Suc n) toks pos = parseOrExpression n toks pos"

| "parseOrExpression 0 toks pos = None"
| "parseOrExpression (Suc n) toks pos =
    andThen (parseAndExpression n toks pos)
      (\<lambda>(left, p). parseOrExpression_loop n toks p left)"
| "parseOrExpression_loop 0 toks pos left = None"
| "parseOrExpression_loop (Suc n) toks pos left =
    (case matchValue (getCurrentToken toks pos) [''||''] of
       None \<Rightarrow> ok (left, pos)
     | Some operator \<Rightarrow>
         andThen (parseAndExpression n toks (pos + 1)) (\<lambda>(right, p).
           parseOrExpression_loop n toks p (Some (BinaryExpression left operator right))))"

| "parseAndExpression 0 toks pos = None"
| "parseAndExpression (Suc n) toks pos =
    andThen (parseEqualityExpression n toks pos)
      (\<lambda>(left, p). parseAndExpression_loop n toks p left)"
| "parseAndExpression_loop 0 toks pos left = None"
| "parseAndExpression_loop (Suc n) toks pos left =
    (case matchValue (getCurrentToken toks pos) [''&&''] of
       None \<Rightarrow> ok (left, pos)
     | Some operator \<Rightarrow>
         andThen (parseEqualityExpression n toks (pos + 1)) (\<lambda>(right, p).
           parseAndExpression_loop n toks p (Some (BinaryExpression left operator right))))"

| "parseEqualityExpression 0 toks pos = None"
| "parseEqualityExpression (Suc n) toks pos =
    andThen (parseRelationalExpression n toks pos)
      (\<lambda>(left, p). parseEqualityExpression_loop n toks p left)"
| "parseEqualityExpression_loop 0 toks pos left = None"
| "parseEqualityExpression_loop (Suc n) toks pos left =
    (case matchValue (getCurrentToken toks pos) [''=='', ''!=''] of
       None \<Rightarrow> ok (left, pos)
     | Some operator \<Rightarrow>
         andThen (parseRelationalExpression n toks (pos + 1)) (\<lambda>(right, p).
           parseEqualityExpression_loop n toks p
             (Some (BinaryExpression left operator right))))"

| "parseRelationalExpression 0 toks pos = None"
| "parseRelationalExpression (Suc n) toks pos =
    andThen (parseAdditiveExpression n toks pos)
      (\<lambda>(left, p). parseRelationalExpression_loop n toks p left)"
| "parseRelationalExpression_loop 0 toks pos left = None"
| "parseRelationalExpression_loop (Suc n) toks pos left =
    (case matchValue (getCurrentToken toks pos) [''<'', ''>'', ''<='', ''>=''] of
       None \<Rightarrow> ok (left, pos)
     | Some operator \<Rightarrow>
         andThen (parseAdditiveExpression n toks (pos + 1)) (\<lambda>(right, p).
           parseRelationalExpression_loop n toks p
             (Some (BinaryExpression left operator right))))"

| "parseAdditiveExpression 0 toks pos = None"
| "parseAdditiveExpression (Suc n) toks pos =
    andThen (parseMultiplicativeExpression n toks pos)
      (\<lambda>(left, p). parseAdditiveExpression_loop n toks p left)"
| "parseAdditiveExpression_loop 0 toks pos left = None"
| "parseAdditiveExpression_loop (Suc n) toks pos left =
    (case matchValue (getCurrentToken toks pos) [''+'', ''-''] of
       None \<Rightarrow> ok (left, pos)
     | Some operator \<Rightarrow>
         andThen (parseMultiplicativeExpression n toks (pos + 1)) (\<lambda>(right, p).
           parseAdditiveExpression_loop n toks p
             (Some (BinaryExpression left operator right))))"

| "parseMultiplicativeExpression 0 toks pos = None"
| "parseMultiplicativeExpression (Suc n) toks pos =
    andThen (parsePrimaryExpression n toks pos)
      (\<lambda>(left, p). parseMultiplicativeExpression_loop n toks p left)"
| "parseMultiplicativeExpression_loop 0 toks pos left = None"
| "parseMultiplicativeExpression_loop (Suc n) toks pos left =
    (case matchValue (getCurrentToken toks pos) [''*'', ''/'', ''%''] of
       None \<Rightarrow> ok (left, pos)
     | Some operator \<Rightarrow>
         andThen (parsePrimaryExpression n toks (pos + 1)) (\<lambda>(right, p).
           parseMultiplicativeExpression_loop n toks p
             (Some (BinaryExpression left operator right))))"

| "parsePrimaryExpression 0 toks pos = None"
| "parsePrimaryExpression (Suc n) toks pos =
    (case getCurrentToken toks pos of
       None \<Rightarrow> ok (None, pos)
     | Some token \<Rightarrow>
         if ttype token = NUMBER then
           (case tvalue token of
              None \<Rightarrow> raise TypeError
            | Some text \<Rightarrow>
                ok (Some (Literal (NumberValue text)
                            (if CHR ''.'' \<in> set text then ''float'' else ''int'')), pos + 1))
         else if ttype token = STRING then
           ok (Some (Literal (case tvalue token of None \<Rightarrow> NullValue
                                | Some text \<Rightarrow> StringValue text) ''string''), pos + 1)
         else if ttype token = IDENTIFIER then
           (if hasValue (getCurrentToken toks (pos + 1)) ''(''
            then parseAssignmentOrFunctionCall n toks pos
            else ok (Some (Identifier (tvalue token)), pos + 1))
         else if tvalue token = Some ''('' then
           andThen (parseExpression n toks (pos + 1))
             (\<lambda>(expr, p). ok (expr, skipToken toks p '')''))
         else if tvalue token = Some ''&'' then
           andThen (parsePrimaryExpression n toks (pos + 1))
             (\<lambda>(expr, p). ok (Some (UnaryExpression ''&'' expr), p))
         else ok (None, pos + 1))"

| "parseAssignmentOrFunctionCall 0 toks pos = None"
| "parseAssignmentOrFunctionCall (Suc n) toks pos =
    (case getCurrentToken toks pos of
       None \<Rightarrow> ok (None, pos)
     | Some identifier \<Rightarrow>
         if hasValue (getCurrentToken toks (pos + 1)) ''('' then
           andThen (parseArguments_loop n toks (pos + 2) []) (\<lambda>(args, p).
             ok (Some (FunctionCall (tvalue identifier) args), skipToken toks p '';''))
         else
           (case matchValue (getCurrentToken toks (pos + 1))
                   [''='', ''+='', ''-='', ''*='', ''/='', ''++'', ''--''] of
              Some operator \<Rightarrow>
                if operator = ''++'' \<or> operator = ''--'' then
                  ok (Some (Assignment (tvalue identifier) operator None),
                      skipToken toks (pos + 2) '';'')
                else
                  andThen (parseExpression n toks (pos + 2)) (\<lambda>(val, p).
                    ok (Some (Assignment (tvalue identifier) operator val),
                        skipToken toks p '';''))
            | None \<Rightarrow> parseExpression n toks pos))"

| "parseArguments_loop 0 toks pos args = None"
| "parseArguments_loop (Suc n) toks pos args =
    (if pos < length toks then
       (if hasValue (getCurrentToken toks pos) '')'' then ok (args, pos + 1)
        else if hasValue (getCurrentToken toks pos) '','' then
          parseArguments_loop n toks (pos + 1) args
        else andThen (parseExpression n toks pos) (\<lambda>(expr, p).
               parseArguments_loop n toks p (pushNode args expr)))
     else ok (args, pos))"
  by pat_completeness auto
termination
  by (relation "measure
        (case_sum
          (case_sum (case_sum (case_sum fst fst) (case_sum fst fst))
                    (case_sum (case_sum fst fst) (case_sum fst fst)))
          (case_sum (case_sum (case_sum fst fst) (case_sum fst fst))
                    (case_sum (case_sum fst fst) (case_sum fst fst))))")
     simp_all

subsection \<open>Statements\<close>

definition typeKeywords :: "string list" where
  "typeKeywords = [''int'', ''float'', ''double'', ''char'', ''void'', ''long'', ''short'']"

definition parseInclude :: "token list \<Rightarrow> nat \<Rightarrow> node option \<times> nat" where
  "parseInclude toks pos =
    (if hasValue (getCurrentToken toks (pos + 1)) ''include'' then
       (if hasValue (getCurrentToken toks (pos + 2)) ''<''
           \<or> hasValue (getCurrentToken toks (pos + 2)) [dquote] then
          (case getCurrentToken toks (pos + 3) of
             Some library \<Rightarrow> (Some (Include (tvalue library)), pos + 5)
           | None \<Rightarrow> (None, pos + 3))
        else (None, pos + 2))
     else (None, pos + 1))"

definition parseVariable ::
  "nat \<Rightarrow> token list \<Rightarrow> nat \<Rightarrow> string option \<Rightarrow> string option
   \<Rightarrow> (node option \<times> nat) result" where
  "parseVariable n toks pos varType name =
    (if hasValue (getCurrentToken toks pos) ''='' then
       andThen (parseExpression n toks (pos + 1)) (\<lambda>(val, p).
         ok (Some (Variable varType name val), skipToken toks p '';''))
     else ok (Some (Variable varType name None), skipToken toks pos '';''))"

definition parseReturnStatement ::
  "nat \<Rightarrow> token list \<Rightarrow> nat \<Rightarrow> (node option \<times> nat) result" where
  "parseReturnStatement n toks pos =
    (case getCurrentToken toks (pos + 1) of
       None \<Rightarrow> ok (Some (ReturnStatement None), skipToken toks (pos + 1) '';'')
     | Some nextToken \<Rightarrow>
         if tvalue nextToken \<noteq> Some '';'' then
           andThen (parseExpression n toks (pos + 1)) (\<lambda>(val, p).
             ok (Some (ReturnStatement val), skipToken toks p '';''))
         else ok (Some (ReturnStatement None), skipToken toks (pos + 1) '';''))"

definition parsePrintfStatement ::
  "nat \<Rightarrow> token list \<Rightarrow> nat \<Rightarrow> (node option \<times> nat) result" where
  "parsePrintfStatement n toks pos =
    andThen (parseArguments_loop n toks (skipToken toks (pos + 1) ''('') []) (\<lambda>(args, p).
      ok (Some (PrintfStatement args), skipToken toks p '';''))"

definition parseScanfStatement ::
  "nat \<Rightarrow> token list \<Rightarrow> nat \<Rightarrow> (node option \<times> nat) result" where
  "parseScanfStatement n toks pos =
    andThen (parseArguments_loop n toks (skipToken toks (pos + 1) ''('') []) (\<lambda>(args, p).
      ok (Some (ScanfStatement args), skipToken toks p '';''))"

text \<open>The parameter loop of \<open>parseFunction\<close> calls no other method.\<close>

function parseParameters_loop ::
  "token list \<Rightarrow> nat \<Rightarrow> param list \<Rightarrow> param list \<times> nat" where
  "parseParameters_loop toks pos params =
    (if pos < length toks then
       (if tvalue (toks ! pos) = Some '')'' then (params, pos + 1)
        else if tvalue (toks ! pos) = Some '','' then
          parseParameters_loop toks (pos + 1) params
        else
          (case matchValue (Some (toks ! pos)) typeKeywords of
             Some paramType \<Rightarrow>
               if ttype (toks ! pos) = KEYWORD then
                 (case getCurrentToken toks (pos + 1) of
                    Some paramName \<Rightarrow>
                      if ttype paramName = IDENTIFIER then
                        parseParameters_loop toks (pos + 2)
                          (params @ [\<lparr>ptype = paramType, pname = tvalue paramName\<rparr>])
                      else parseParameters_loop toks (pos + 1) params
                  | None \<Rightarrow> parseParameters_loop toks (pos + 1) params)
               else parseParameters_loop toks (pos + 1) params
           | None \<Rightarrow> parseParameters_loop toks (pos + 1) params))
     else (params, pos))"
  by pat_completeness auto
termination
  by (relation "measure (\<lambda>(toks, pos, params). length toks - pos)") auto

function parseStatement :: "nat \<Rightarrow> token list \<Rightarrow> nat \<Rightarrow> (node option \<times> nat) result"
  and parseDeclarationOrFunction ::
    "nat \<Rightarrow> token list \<Rightarrow> nat \<Rightarrow> (node option \<times> nat) result"
  and parseFunction ::
    "nat \<Rightarrow> token list \<Rightarrow> nat \<Rightarrow> string option \<Rightarrow> string option
     \<Rightarrow> (node option \<times> nat) result"
  and parseBlock :: "nat \<Rightarrow> token list \<Rightarrow> nat \<Rightarrow> (node option \<times> nat) result"
  and parseBlock_loop ::
    "nat \<Rightarrow> token list \<Rightarrow> nat \<Rightarrow> node list \<Rightarrow> (node list \<times> nat) result"
  and parseIfStatement :: "nat \<Rightarrow> token list \<Rightarrow> nat \<Rightarrow> (node option \<times> nat) result"
  and parseWhileStatement :: "nat \<Rightarrow> token list \<Rightarrow> nat \<Rightarrow> (node option \<times> nat) result"
  and parseForStatement :: "nat \<Rightarrow> token list \<Rightarrow> nat \<Rightarrow> (node option \<times> nat) result"
where
  "parseStatement 0 toks pos = None"
| "parseStatement (Suc n) toks pos =
    (case getCurrentToken toks pos of
       None \<Rightarrow> ok (None, pos)
     | Some token \<Rightarrow>
         if ttype token = NEWLINE then ok (None, pos + 1)
         else if ttype token = DELIMITER \<and> tvalue token = Some ''#'' then
           ok (parseInclude toks pos)
         else if ttype token = KEYWORD then
           (if tvalue token = Some ''if'' then parseIfStatement n toks pos
            else if tvalue token = Some ''while'' then parseWhileStatement n toks pos
            else if tvalue token = Some ''for'' then parseForStatement n toks pos
            else if tvalue token = Some ''return'' then parseReturnStatement n toks pos
            else if tvalue token = Some ''printf'' then parsePrintfStatement n toks pos
            else if tvalue token = Some ''scanf'' then parseScanfStatement n toks pos
            else if tvalue token \<in> Some ` set typeKeywords then
              parseDeclarationOrFunction n toks pos
            else ok (None, pos + 1))
         else if ttype token = IDENTIFIER then parseAssignmentOrFunctionCall n toks pos
         else if ttype token = DELIMITER \<and> tvalue token = Some ''{'' then
           parseBlock n toks pos
         else ok (None, pos + 1))"

| "parseDeclarationOrFunction 0 toks pos = None"
| "parseDeclarationOrFunction (Suc n) toks pos =
    (case getCurrentToken toks pos of
       None \<Rightarrow> ok (None, pos)
     | Some typeToken \<Rightarrow>
         (case getCurrentToken toks (pos + 1) of
            None \<Rightarrow> ok (None, pos + 1)
          | Some nameToken \<Rightarrow>
              if ttype nameToken = IDENTIFIER then
                (if hasValue (getCurrentToken toks (pos + 2)) ''(''
                 then parseFunction n toks (pos + 2) (tvalue typeToken) (tvalue nameToken)
                 else parseVariable n toks (pos + 2) (tvalue typeToken) (tvalue nameToken))
              else ok (None, pos + 1)))"

| "parseFunction 0 toks pos returnType name = None"
| "parseFunction (Suc n) toks pos returnType name =
    (case parseParameters_loop toks (pos + 1) [] of
       (params, p) \<Rightarrow>
         if hasValue (getCurrentToken toks p) ''{'' then
           andThen (parseBlock n toks p) (\<lambda>(blockNode, p1).
             ok (Some (Function returnType name params
                         (case blockNode of Some (Block stmts) \<Rightarrow> stmts | _ \<Rightarrow> [])), p1))
         else ok (Some (Function returnType name params []), p))"

| "parseBlock 0 toks pos = None"
| "parseBlock (Suc n) toks pos =
    andThen (parseBlock_loop n toks (pos + 1) [])
      (\<lambda>(statements, p). ok (Some (Block statements), p))"
| "parseBlock_loop 0 toks pos statements = None"
| "parseBlock_loop (Suc n) toks pos statements =
    (if pos < length toks then
       (if hasValue (getCurrentToken toks pos) ''}'' then ok (statements, pos + 1)
        else andThen (parseStatement n toks pos) (\<lambda>(stmt, p).
               parseBlock_loop n toks p (pushNode statements stmt)))
     else ok (statements, pos))"

| "parseIfStatement 0 toks pos = None"
| "parseIfStatement (Suc n) toks pos =
    andThen (parseExpression n toks (skipToken toks (pos + 1) ''('')) (\<lambda>(condition, p).
    andThen (parseStatement n toks (skipToken toks p '')'')) (\<lambda>(thenStatement, p1).
      if hasValue (getCurrentToken toks p1) ''else'' then
        andThen (parseStatement n toks (p1 + 1)) (\<lambda>(elseStatement, p2).
          ok (Some (IfStatement condition thenStatement elseStatement), p2))
      else ok (Some (IfStatement condition thenStatement None), p1)))"

| "parseWhileStatement 0 toks pos = None"
| "parseWhileStatement (Suc n) toks pos =
    andThen (parseExpression n toks (skipToken toks (pos + 1) ''('')) (\<lambda>(condition, p).
    andThen (parseStatement n toks (skipToken toks p '')'')) (\<lambda>(body, p1).
      ok (Some (WhileLoop condition body), p1)))"

| "parseForStatement 0 toks pos = None"
| "parseForStatement (Suc n) toks pos =
    andThen
      (case getCurrentToken toks (skipToken toks (pos + 1) ''('') of
         None \<Rightarrow> ok (None, skipToken toks (pos + 1) ''('')
       | Some initToken \<Rightarrow>
           if ttype initToken = KEYWORD then
             parseDeclarationOrFunction n toks (skipToken toks (pos + 1) ''('')
           else if ttype initToken = IDENTIFIER then
             parseAssignmentOrFunctionCall n toks (skipToken toks (pos + 1) ''('')
           else ok (None, skipToken toks (pos + 1) ''(''))
      (\<lambda>(init, p).
    andThen (parseExpression n toks (skipToken toks p '';'')) (\<lambda>(condition, p1).
    andThen (parseExpression n toks (skipToken toks p1 '';'')) (\<lambda>(update, p2).
    andThen (parseStatement n toks (skipToken toks p2 '')'')) (\<lambda>(body, p3).
      ok (Some (ForLoop init condition update body), p3)))))"
  by pat_completeness auto
termination
  by (relation "measure
        (case_sum (case_sum (case_sum fst fst) (case_sum fst fst))
                  (case_sum (case_sum fst fst) (case_sum fst fst)))")
     simp_all

subsection \<open>The method \<open>parse\<close>\<close>

fun parse_loop :: "nat \<Rightarrow> token list \<Rightarrow> nat \<Rightarrow> node list \<Rightarrow> node list result" where
  "parse_loop 0 toks pos stmts = None"
| "parse_loop (Suc n) toks pos stmts =
    (if pos < length toks \<and> ttype (toks ! pos) \<noteq> EOF then
       andThen (parseStatement n toks pos) (\<lambda>(node, p).
         parse_loop n toks p (pushNode stmts node))
     else ok stmts)"

text \<open>The constructor keeps the tokens that are not newlines.\<close>

definition SyntaxAnalyzer :: "token list \<Rightarrow> token list" where
  "SyntaxAnalyzer toks = filter (\<lambda>token. ttype token \<noteq> NEWLINE) toks"

definition parse_with :: "nat \<Rightarrow> token list \<Rightarrow> ast result" where
  "parse_with n toks =
    andThen (parse_loop n (SyntaxAnalyzer toks) 0 [])
      (\<lambda>stmts. ok \<lparr>type = ''Program'', body = BodyArray stmts\<rparr>)"

text \<open>
  \<open>parse\<close> runs with an amount of fuel that grows with the number of tokens; by
  \<open>parse_with_returns\<close> below, this amount and every larger one is enough.
\<close>

definition parseFuel :: "token list \<Rightarrow> nat" where
  "parseFuel toks = 16 * (length toks + 1)"

definition parse :: "token list \<Rightarrow> ast result" where
  "parse toks = parse_with (parseFuel toks) toks"

subsection \<open>Two worked inputs\<close>

text \<open>
  Claim C4. The text \<open>int add(int a, int b) { return a + b; }\<close> is tokenized into the
  sixteen tokens listed (each with its line and column) followed by the end-of-input
  token, and parsing these tokens gives a Program whose body is the single Function
  node \<open>add\<close> with the parameters \<open>a\<close> and \<open>b\<close> and a body of one ReturnStatement
  that holds the BinaryExpression \<open>a + b\<close>.
\<close>

theorem add_function_tokens_and_tree:
  "tokenize (LexicalAnalyzer ''int add(int a, int b) { return a + b; }'') =
     [mkToken KEYWORD ''int'' 1 1, mkToken IDENTIFIER ''add'' 1 5,
      mkToken DELIMITER ''('' 1 8, mkToken KEYWORD ''int'' 1 9,
      mkToken IDENTIFIER ''a'' 1 13, mkToken DELIMITER '','' 1 14,
      mkToken KEYWORD ''int'' 1 16, mkToken IDENTIFIER ''b'' 1 20,
      mkToken DELIMITER '')'' 1 21, mkToken DELIMITER ''{'' 1 23,
      mkToken KEYWORD ''return'' 1 25, mkToken IDENTIFIER ''a'' 1 32,
      mkToken OPERATOR ''+'' 1 34, mkToken IDENTIFIER ''b'' 1 36,
      mkToken DELIMITER '';'' 1 37, mkToken DELIMITER ''}'' 1 39, eofToken]
   \<and> parse (tokenize (LexicalAnalyzer ''int add(int a, int b) { return a + b; }'')) =
     Some (Inr \<lparr>type = ''Program'',
       body = BodyArray
         [Function (Some ''int'') (Some ''add'')
            [\<lparr>ptype = ''int'', pname = Some ''a''\<rparr>, \<lparr>ptype = ''int'', pname = Some ''b''\<rparr>]
            [ReturnStatement
               (Some (BinaryExpression (Some (Identifier (Some ''a''))) ''+''
                        (Some (Identifier (Some ''b'')))))]]\<rparr>)"
  by code_simp

text \<open>
  Claim C3. On the text \<open>if (a) if (b) s1; else s2;\<close> the statement \<open>s1\<close> is an
  expression statement: \<open>parseAssignmentOrFunctionCall\<close> falls through to
  \<open>parseExpression\<close> and, unlike its two other branches, does not skip the semicolon.
  The inner \<open>parseIfStatement\<close> therefore finds \<open>;\<close> where it looks for \<open>else\<close>, and
  so does the outer one: neither IfStatement gets an else branch, the keyword \<open>else\<close>
  is dropped by \<open>parseStatement\<close>, and \<open>s2\<close> becomes a second statement of the program.
\<close>

theorem dangling_else_lost_after_expression_statement:
  "parse (tokenize (LexicalAnalyzer ''if (a) if (b) s1; else s2;'')) =
     Some (Inr \<lparr>type = ''Program'',
       body = BodyArray
         [IfStatement (Some (Identifier (Some ''a'')))
            (Some (IfStatement (Some (Identifier (Some ''b'')))
                     (Some (Identifier (Some ''s1''))) None))
            None,
          Identifier (Some ''s2'')]\<rparr>)"
  by code_simp

text \<open>
  When the two statements are assignments, which do skip their semicolon, the else
  branch is attached to the inner IfStatement and the outer one has none.
\<close>

lemma dangling_else_with_assignments:
  "parse (tokenize (LexicalAnalyzer ''if (a) if (b) x = 1; else y = 2;'')) =
     Some (Inr \<lparr>type = ''Program'',
       body = BodyArray
         [IfStatement (Some (Identifier (Some ''a'')))
            (Some (IfStatement (Some (Identifier (Some ''b'')))
                     (Some (Assignment (Some ''x'') ''=''
                              (Some (Literal (NumberValue ''1'') ''int''))))
                     (Some (Assignment (Some ''y'') ''=''
                              (Some (Literal (NumberValue ''2'') ''int''))))))
            None]\<rparr>)"
  by code_simp

section \<open>The code generator\<close>

text \<open>
  Three things that the generator takes from the JavaScript runtime are parameters of
  the model, collected in \<open>jsenv\<close>:
  \<^item> \<open>numberToString text\<close> is \<open>String(parseFloat(text))\<close>, the rendering of a
    floating-point number;
  \<^item> \<open>numberTruthy text\<close> tells whether \<open>parseFloat(text)\<close> is neither zero nor NaN;
  \<^item> \<open>inheritedProperty key\<close> is the rendering of the property that an object literal
    inherits under \<open>key\<close> (such as \<open>constructor\<close>), if there is one: the lookup
    tables of the generator are object literals.
  A method that can raise returns \<open>error + string\<close>.
\<close>

record jsenv =
  numberToString :: "string \<Rightarrow> string"
  numberTruthy :: "string \<Rightarrow> bool"
  inheritedProperty :: "string \<Rightarrow> string option"

definition andThenE :: "error + 'a \<Rightarrow> ('a \<Rightarrow> error + 'b) \<Rightarrow> error + 'b" where
  "andThenE m k = (case m of Inl e \<Rightarrow> Inl e | Inr x \<Rightarrow> k x)"

lemma andThenE_cong [fundef_cong]:
  "m = m' \<Longrightarrow> (\<And>x. m' = Inr x \<Longrightarrow> k x = k' x) \<Longrightarrow> andThenE m k = andThenE m' k'"
  by (auto simp: andThenE_def split: sum.splits)

subsection \<open>Strings\<close>

text \<open>A string or null inside a template literal: null is written \<open>null\<close>.\<close>

definition str :: "string option \<Rightarrow> string" where
  "str v = (case v of None \<Rightarrow> ''null'' | Some s \<Rightarrow> s)"

text \<open>\<open>Array.prototype.join\<close>: an element that is null is joined as the empty string.\<close>

fun joinWith :: "string \<Rightarrow> string option list \<Rightarrow> string" where
  "joinWith sep [] = []"
| "joinWith sep [x] = (case x of None \<Rightarrow> [] | Some s \<Rightarrow> s)"
| "joinWith sep (x # y # ys) =
    (case x of None \<Rightarrow> [] | Some s \<Rightarrow> s) @ sep @ joinWith sep (y # ys)"

definition trim :: "string \<Rightarrow> string" where
  "trim s = rev (dropWhile isSpace (rev (dropWhile isSpace s)))"

text \<open>
  \<open>s.replace(/;\s*$/, "")\<close>: when only white space follows the last semicolon, the
  semicolon and what follows it are removed.
\<close>

definition dropFinalSemicolon :: "string \<Rightarrow> string" where
  "dropFinalSemicolon s =
    (let t = rev (dropWhile isSpace (rev s))
     in if t \<noteq> [] \<and> last t = CHR '';'' then butlast t else s)"

text \<open>\<open>s.replace(/ab/g, rep)\<close> and \<open>s.includes("ab")\<close> for a pattern of two characters.\<close>

fun replaceAll2 :: "char \<Rightarrow> char \<Rightarrow> string \<Rightarrow> string \<Rightarrow> string" where
  "replaceAll2 a b rep (x # y # zs) =
    (if x = a \<and> y = b then rep @ replaceAll2 a b rep zs
     else x # replaceAll2 a b rep (y # zs))"
| "replaceAll2 a b rep xs = xs"

fun includes2 :: "char \<Rightarrow> char \<Rightarrow> string \<Rightarrow> bool" where
  "includes2 a b (x # y # zs) = ((x = a \<and> y = b) \<or> includes2 a b (y # zs))"
| "includes2 a b xs = False"

subsection \<open>Fields read from a node of any kind\<close>

text \<open>
  The generator reads \<open>.value\<close>, \<open>.name\<close> and \<open>.identifier\<close> from nodes without looking
  at their kind first. \<open>jsval\<close> is what such a read can give.
\<close>

datatype jsval = JUndefined | JNull | JString string | JNumber string | JObject node

definition ofNode :: "node option \<Rightarrow> jsval" where
  "ofNode n = (case n of None \<Rightarrow> JNull | Some x \<Rightarrow> JObject x)"

definition ofString :: "string option \<Rightarrow> jsval" where
  "ofString s = (case s of None \<Rightarrow> JNull | Some x \<Rightarrow> JString x)"

fun valueField :: "node \<Rightarrow> jsval" where
  "valueField (Variable dataType name val) = ofNode val"
| "valueField (Assignment ident operator val) = ofNode val"
| "valueField (ReturnStatement val) = ofNode val"
| "valueField (Literal (NumberValue text) dataType) = JNumber text"
| "valueField (Literal (StringValue s) dataType) = JString s"
| "valueField (Literal NullValue dataType) = JNull"
| "valueField n = JUndefined"

fun nameField :: "node \<Rightarrow> jsval" where
  "nameField (Function returnType name params stmts) = ofString name"
| "nameField (Variable dataType name val) = ofString name"
| "nameField (FunctionCall name args) = ofString name"
| "nameField (Identifier name) = ofString name"
| "nameField n = JUndefined"

fun identifierField :: "node \<Rightarrow> jsval" where
  "identifierField (Assignment ident operator val) = ofString ident"
| "identifierField n = JUndefined"

definition truthy :: "jsenv \<Rightarrow> jsval \<Rightarrow> bool" where
  "truthy env v =
    (case v of
       JUndefined \<Rightarrow> False
     | JNull \<Rightarrow> False
     | JString s \<Rightarrow> s \<noteq> []
     | JNumber text \<Rightarrow> numberTruthy env text
     | JObject n \<Rightarrow> True)"

text \<open>
  \<open>blockBody n\<close> is \<open>n.body\<close> when \<open>n.type === "Block"\<close>, and \<open>ifFields n\<close> are the
  fields of \<open>n\<close> when \<open>n.type === "IfStatement"\<close>.
\<close>

definition blockBody :: "node \<Rightarrow> node list option" where
  "blockBody n = (case n of Block stmts \<Rightarrow> Some stmts | _ \<Rightarrow> None)"

definition ifFields :: "node \<Rightarrow> (node option \<times> node option \<times> node option) option" where
  "ifFields n = (case n of IfStatement c t e \<Rightarrow> Some (c, t, e) | _ \<Rightarrow> None)"

lemma blockBody_size: "blockBody n = Some stmts \<Longrightarrow> size_list size stmts < size n"
  by (cases n) (auto simp: blockBody_def)

lemma ifFields_size:
  "ifFields n = Some (c, t, e) \<Longrightarrow>
   size_option size c + size_option size t + size_option size e < size n"
  by (cases n) (auto simp: ifFields_def)

subsection \<open>Lookup tables\<close>

definition objectLookup :: "jsenv \<Rightarrow> (string \<times> string) list \<Rightarrow> string \<Rightarrow> string option" where
  "objectLookup env table key =
    (case map_of table key of Some v \<Rightarrow> Some v | None \<Rightarrow> inheritedProperty env key)"

definition mapJavaType :: "jsenv \<Rightarrow> string option \<Rightarrow> string" where
  "mapJavaType env cType =
    (case objectLookup env
            [(''int'', ''int''), (''float'', ''float''), (''double'', ''double''),
             (''char'', ''char''), (''void'', ''void''), (''long'', ''long''),
             (''short'', ''short''), (''bool'', ''boolean'')] (str cType) of
       Some v \<Rightarrow> v
     | None \<Rightarrow> ''Object'')"

definition getDefaultValue :: "jsenv \<Rightarrow> string \<Rightarrow> string" where
  "getDefaultValue env javaType =
    (case objectLookup env
            [(''int'', ''0''), (''float'', ''0.0f''), (''double'', ''0.0''),
             (''char'', [squote, backslash, CHR ''0'', squote]), (''boolean'', ''false''),
             (''long'', ''0L''), (''short'', ''0'')] javaType of
       Some v \<Rightarrow> v
     | None \<Rightarrow> ''null'')"

definition getPythonDefaultValue :: "jsenv \<Rightarrow> string option \<Rightarrow> string" where
  "getPythonDefaultValue env cType =
    (case objectLookup env
            [(''int'', ''0''), (''float'', ''0.0''), (''double'', ''0.0''),
             (''char'', [squote, squote]), (''void'', ''None''), (''long'', ''0''),
             (''short'', ''0'')] (str cType) of
       Some v \<Rightarrow> v
     | None \<Rightarrow> ''None'')"

subsection \<open>Expressions\<close>

text \<open>\<open>String(v)\<close> for the value of a literal.\<close>

definition litString :: "jsenv \<Rightarrow> litvalue \<Rightarrow> string" where
  "litString env v =
    (case v of
       NumberValue text \<Rightarrow> numberToString env text
     | StringValue s \<Rightarrow> s
     | NullValue \<Rightarrow> ''null'')"

text \<open>
  The result of an expression method is a string, or null when the expression is an
  Identifier whose name is null; the test \<open>if (!expr) return ""\<close> is the case \<open>None\<close>
  of the argument in \<open>generateJavaExpressionOpt\<close>.
\<close>

fun generateJavaExpression :: "jsenv \<Rightarrow> node \<Rightarrow> string option" where
  "generateJavaExpression env (Literal v dataType) =
    Some (if dataType = ''string'' then [dquote] @ litString env v @ [dquote]
          else litString env v)"
| "generateJavaExpression env (Identifier name) = name"
| "generateJavaExpression env (BinaryExpression l operator r) =
    Some (str (case l of None \<Rightarrow> Some [] | Some e \<Rightarrow> generateJavaExpression env e)
          @ '' '' @ operator @ '' ''
          @ str (case r of None \<Rightarrow> Some [] | Some e \<Rightarrow> generateJavaExpression env e))"
| "generateJavaExpression env (UnaryExpression operator operand) =
    (if operator = ''&''
     then (case operand of None \<Rightarrow> Some [] | Some e \<Rightarrow> generateJavaExpression env e)
     else Some (operator
           @ str (case operand of None \<Rightarrow> Some [] | Some e \<Rightarrow> generateJavaExpression env e)))"
| "generateJavaExpression env (FunctionCall name args) =
    Some (str name @ ''('' @ joinWith '', '' (map (generateJavaExpression env) args) @ '')'')"
| "generateJavaExpression env n = Some []"

definition generateJavaExpressionOpt :: "jsenv \<Rightarrow> node option \<Rightarrow> string option" where
  "generateJavaExpressionOpt env expr =
    (case expr of None \<Rightarrow> Some [] | Some e \<Rightarrow> generateJavaExpression env e)"

fun generatePythonExpression :: "jsenv \<Rightarrow> node \<Rightarrow> string option" where
  "generatePythonExpression env (Literal v dataType) =
    Some (if dataType = ''string'' then [dquote] @ litString env v @ [dquote]
          else litString env v)"
| "generatePythonExpression env (Identifier name) = name"
| "generatePythonExpression env (BinaryExpression l operator r) =
    Some (str (case l of None \<Rightarrow> Some [] | Some e \<Rightarrow> generatePythonExpression env e)
          @ '' ''
          @ (if operator = ''&&'' then ''and'' else if operator = ''||'' then ''or''
             else operator)
          @ '' ''
          @ str (case r of None \<Rightarrow> Some [] | Some e \<Rightarrow> generatePythonExpression env e))"
| "generatePythonExpression env (UnaryExpression operator operand) =
    (if operator = ''&''
     then (case operand of None \<Rightarrow> Some [] | Some e \<Rightarrow> generatePythonExpression env e)
     else Some (operator
           @ str (case operand of None \<Rightarrow> Some []
                  | Some e \<Rightarrow> generatePythonExpression env e)))"
| "generatePythonExpression env (FunctionCall name args) =
    Some (str name @ ''('' @ joinWith '', '' (map (generatePythonExpression env) args)
          @ '')'')"
| "generatePythonExpression env n = Some []"

definition generatePythonExpressionOpt :: "jsenv \<Rightarrow> node option \<Rightarrow> string option" where
  "generatePythonExpressionOpt env expr =
    (case expr of None \<Rightarrow> Some [] | Some e \<Rightarrow> generatePythonExpression env e)"

subsection \<open>Input and output statements\<close>

definition generateJavaPrintf :: "jsenv \<Rightarrow> node list \<Rightarrow> string \<Rightarrow> error + string" where
  "generateJavaPrintf env arguments indent =
    (case arguments of
       [] \<Rightarrow> Inr (indent @ ''System.out.println();'' @ [newline])
     | first # rest \<Rightarrow>
         if rest \<noteq> [] then
           Inr (indent @ ''System.out.printf('' @ str (generateJavaExpression env first)
                @ '', '' @ joinWith '', '' (map (generateJavaExpression env) rest)
                @ '');'' @ [newline])
         else
           (case generateJavaExpression env first of
              None \<Rightarrow> Inl TypeError
            | Some formatStr \<Rightarrow>
                if CHR ''%'' \<in> set (replaceAll2 backslash (CHR ''n'') []
                                       (filter (\<lambda>c. c \<noteq> dquote) formatStr))
                then Inr (indent @ ''System.out.printf('' @ formatStr @ '');'' @ [newline])
                else Inr (indent @ ''System.out.println('' @ formatStr @ '');''
                          @ [newline])))"

text \<open>
  The two scanf methods differ in the four statements they emit, which are the
  parameters \<open>forInt\<close>, \<open>forFloat\<close>, \<open>forString\<close> here. Calling \<open>.includes\<close> on a value
  that is truthy and not a string raises a TypeError.
\<close>

definition scanfByFormat ::
  "jsenv \<Rightarrow> node \<Rightarrow> string \<Rightarrow> string \<Rightarrow> string \<Rightarrow> error + string" where
  "scanfByFormat env formatStr forInt forFloat forString =
    (if truthy env (valueField formatStr) then
       (case valueField formatStr of
          JString s \<Rightarrow>
            if includes2 (CHR ''%'') (CHR ''d'') s then Inr forInt
            else if includes2 (CHR ''%'') (CHR ''f'') s then Inr forFloat
            else if includes2 (CHR ''%'') (CHR ''s'') s then Inr forString
            else Inr forInt
        | _ \<Rightarrow> Inl TypeError)
     else Inr forInt)"

definition generateJavaScanf :: "jsenv \<Rightarrow> node list \<Rightarrow> string \<Rightarrow> error + string" where
  "generateJavaScanf env arguments indent =
    (case arguments of
       formatStr # second # rest \<Rightarrow>
         (let variable = str (generateJavaExpression env second) in
          scanfByFormat env formatStr
            (indent @ variable @ '' = scanner.nextInt();'' @ [newline])
            (indent @ variable @ '' = scanner.nextFloat();'' @ [newline])
            (indent @ variable @ '' = scanner.next();'' @ [newline]))
     | _ \<Rightarrow> Inr (indent @ ''// Scanner input needed'' @ [newline]))"

definition generatePythonPrintf :: "jsenv \<Rightarrow> node list \<Rightarrow> string \<Rightarrow> error + string" where
  "generatePythonPrintf env arguments indent =
    (case arguments of
       [] \<Rightarrow> Inr (indent @ ''print()'' @ [newline])
     | formatStr # rest \<Rightarrow>
         if rest \<noteq> [] then
           (case valueField formatStr of
              JString s \<Rightarrow>
                if s \<noteq> [] then
                  Inr (indent @ ''print('' @ [dquote]
                       @ replaceAll2 (CHR ''%'') (CHR ''c'') ''{}''
                           (replaceAll2 (CHR ''%'') (CHR ''f'') ''{}''
                             (replaceAll2 (CHR ''%'') (CHR ''s'') ''{}''
                               (replaceAll2 (CHR ''%'') (CHR ''d'') ''{}'' s)))
                       @ [dquote] @ ''.format(''
                       @ joinWith '', '' (map (generatePythonExpression env) rest)
                       @ ''))'' @ [newline])
                else Inl TypeError
            | _ \<Rightarrow> Inl TypeError)
         else
           Inr (indent @ ''print('' @ str (generatePythonExpression env formatStr) @ '')''
                @ [newline]))"

definition generatePythonScanf :: "jsenv \<Rightarrow> node list \<Rightarrow> string \<Rightarrow> error + string" where
  "generatePythonScanf env arguments indent =
    (case arguments of
       formatStr # second # rest \<Rightarrow>
         (let variable = str (generatePythonExpression env second) in
          scanfByFormat env formatStr
            (indent @ variable @ '' = int(input())'' @ [newline])
            (indent @ variable @ '' = float(input())'' @ [newline])
            (indent @ variable @ '' = input()'' @ [newline]))
     | _ \<Rightarrow> Inr (indent @ ''# Input needed'' @ [newline]))"

subsection \<open>Statements of the typed dialect\<close>

text \<open>
  \<open>generateJavaIfStatement\<close> and \<open>generateJavaForLoop\<close> take the fields of the node
  they are called on. The indentation of one level is four spaces.
\<close>

function (sequential) generateJavaStatements :: "jsenv \<Rightarrow> node list \<Rightarrow> string \<Rightarrow> error + string"
  and generateJavaStatement :: "jsenv \<Rightarrow> node \<Rightarrow> string \<Rightarrow> error + string"
  and generateJavaIfStatement ::
    "jsenv \<Rightarrow> node option \<Rightarrow> node option \<Rightarrow> node option \<Rightarrow> string \<Rightarrow> error + string"
  and generateJavaForLoop ::
    "jsenv \<Rightarrow> node option \<Rightarrow> node option \<Rightarrow> node option \<Rightarrow> node option \<Rightarrow> string
     \<Rightarrow> error + string"
where
  "generateJavaStatements env [] indent = Inr []"
| "generateJavaStatements env (stmt # rest) indent =
    andThenE (generateJavaStatement env stmt indent) (\<lambda>stmtCode.
    andThenE (generateJavaStatements env rest indent) (\<lambda>code. Inr (stmtCode @ code)))"

| "generateJavaStatement env (Variable dataType name val) indent =
    Inr (indent @ mapJavaType env dataType @ '' '' @ str name @ '' = ''
         @ (case val of
              Some v \<Rightarrow> str (generateJavaExpression env v)
            | None \<Rightarrow> getDefaultValue env (mapJavaType env dataType))
         @ '';'' @ [newline])"
| "generateJavaStatement env (Assignment ident operator val) indent =
    (if operator = ''++'' \<or> operator = ''--''
     then Inr (indent @ str ident @ operator @ '';'' @ [newline])
     else Inr (indent @ str ident @ '' '' @ operator @ '' ''
               @ str (generateJavaExpressionOpt env val) @ '';'' @ [newline]))"
| "generateJavaStatement env (PrintfStatement args) indent = generateJavaPrintf env args indent"
| "generateJavaStatement env (ScanfStatement args) indent = generateJavaScanf env args indent"
| "generateJavaStatement env (FunctionCall name args) indent =
    Inr (indent @ str name @ ''('' @ joinWith '', '' (map (generateJavaExpression env) args)
         @ '');'' @ [newline])"
| "generateJavaStatement env (IfStatement condition thenStatement elseStatement) indent =
    generateJavaIfStatement env condition thenStatement elseStatement indent"
| "generateJavaStatement env (WhileLoop condition loopBody) indent =
    andThenE
      (case loopBody of
         None \<Rightarrow> Inr []
       | Some stmt \<Rightarrow>
           (case blockBody stmt of
              Some stmts \<Rightarrow> generateJavaStatements env stmts (indent @ ''    '')
            | None \<Rightarrow> generateJavaStatement env stmt (indent @ ''    '')))
      (\<lambda>bodyCode.
         Inr (indent @ ''while ('' @ str (generateJavaExpressionOpt env condition) @ '') {''
              @ [newline] @ bodyCode @ indent @ ''}'' @ [newline]))"
| "generateJavaStatement env (ForLoop init condition update loopBody) indent =
    generateJavaForLoop env init condition update loopBody indent"
| "generateJavaStatement env (ReturnStatement val) indent =
    Inr (indent @ ''return ''
         @ (case val of Some v \<Rightarrow> str (generateJavaExpression env v) | None \<Rightarrow> [])
         @ '';'' @ [newline])"
| "generateJavaStatement env (Block stmts) indent = generateJavaStatements env stmts indent"
| "generateJavaStatement env n indent = Inr []"

| "generateJavaIfStatement env condition thenStatement elseStatement indent =
    andThenE
      (case thenStatement of
         None \<Rightarrow> Inr []
       | Some stmt \<Rightarrow>
           (case blockBody stmt of
              Some stmts \<Rightarrow> generateJavaStatements env stmts (indent @ ''    '')
            | None \<Rightarrow> generateJavaStatement env stmt (indent @ ''    '')))
      (\<lambda>thenCode.
    andThenE
      (case elseStatement of
         None \<Rightarrow> Inr []
       | Some stmt \<Rightarrow>
           (case blockBody stmt of
              Some stmts \<Rightarrow>
                andThenE (generateJavaStatements env stmts (indent @ ''    '')) (\<lambda>elseCode.
                  Inr ('' else {'' @ [newline] @ elseCode @ indent @ ''}''))
            | None \<Rightarrow>
                (case ifFields stmt of
                   Some (c, t, e) \<Rightarrow>
                     andThenE (generateJavaIfStatement env c t e []) (\<lambda>elseCode.
                       Inr ('' else {'' @ [newline] @ indent @ ''    '' @ trim elseCode
                            @ [newline] @ indent @ ''}''))
                 | None \<Rightarrow>
                     andThenE (generateJavaStatement env stmt (indent @ ''    ''))
                       (\<lambda>elseCode.
                          Inr ('' else {'' @ [newline] @ elseCode @ indent @ ''}'')))))
      (\<lambda>elsePart.
         Inr (indent @ ''if ('' @ str (generateJavaExpressionOpt env condition) @ '') {''
              @ [newline] @ thenCode @ indent @ ''}'' @ elsePart @ [newline])))"

| "generateJavaForLoop env init condition update loopBody indent =
    andThenE
      (case init of
         None \<Rightarrow> Inr []
       | Some stmt \<Rightarrow>
           andThenE (generateJavaStatement env stmt [])
             (\<lambda>code. Inr (trim (dropFinalSemicolon code))))
      (\<lambda>initCode.
    andThenE
      (case loopBody of
         None \<Rightarrow> Inr []
       | Some stmt \<Rightarrow>
           (case blockBody stmt of
              Some stmts \<Rightarrow> generateJavaStatements env stmts (indent @ ''    '')
            | None \<Rightarrow> generateJavaStatement env stmt (indent @ ''    '')))
      (\<lambda>bodyCode.
         Inr (indent @ ''for ('' @ initCode @ ''; ''
              @ (case condition of Some c \<Rightarrow> str (generateJavaExpression env c)
                 | None \<Rightarrow> [])
              @ ''; ''
              @ (case update of Some u \<Rightarrow> str (generateJavaExpression env u) | None \<Rightarrow> [])
              @ '') {'' @ [newline] @ bodyCode @ indent @ ''}'' @ [newline])))"
  by pat_completeness auto
termination
  by (relation "measure
        (case_sum
          (case_sum (\<lambda>(env, stmts, indent). size_list size stmts)
                    (\<lambda>(env, n, indent). size n))
          (case_sum (\<lambda>(env, c, t, e, indent).
                       size_option size c + size_option size t + size_option size e)
                    (\<lambda>(env, i, c, u, b, indent).
                       size_option size i + size_option size c + size_option size u
                       + size_option size b)))")
     (auto dest: blockBody_size ifFields_size)

subsection \<open>The method \<open>generateJava\<close>\<close>

text \<open>
  The loop over the body of the root: the pair is \<open>(classContent, hasMain)\<close>.
\<close>

fun generateJava_loop ::
  "jsenv \<Rightarrow> node list \<Rightarrow> string \<times> bool \<Rightarrow> error + (string \<times> bool)" where
  "generateJava_loop env [] acc = Inr acc"
| "generateJava_loop env (Include library # rest) acc = generateJava_loop env rest acc"
| "generateJava_loop env (Function returnType name params stmts # rest) (classContent, hasMain) =
    (if name = Some ''main'' then
       andThenE (generateJavaStatements env stmts ''        '') (\<lambda>code.
         generateJava_loop env rest
           (classContent @ ''    public static void main(String[] args) {'' @ [newline]
            @ ''        Scanner scanner = new Scanner(System.in);'' @ [newline]
            @ code
            @ ''        scanner.close();'' @ [newline]
            @ ''    }'' @ [newline, newline], True))
     else
       andThenE (generateJavaStatements env stmts ''        '') (\<lambda>code.
         generateJava_loop env rest
           (classContent @ ''    public static '' @ mapJavaType env returnType @ '' ''
            @ str name @ ''(''
            @ joinWith '', ''
                (map (\<lambda>p. Some (mapJavaType env (Some (ptype p)) @ '' '' @ str (pname p)))
                   params)
            @ '') {'' @ [newline]
            @ code
            @ ''    }'' @ [newline, newline], hasMain)))"
| "generateJava_loop env (stmt # rest) (classContent, hasMain) =
    andThenE (generateJavaStatement env stmt ''    '') (\<lambda>code.
      generateJava_loop env rest (classContent @ code, hasMain))"

definition invalidJava :: string where
  "invalidJava = ''// Error: Invalid AST structure''"

definition generateJava :: "jsenv \<Rightarrow> ast \<Rightarrow> error + string" where
  "generateJava env root =
    (case body root of
       BodyArray nodes \<Rightarrow>
         andThenE (generateJava_loop env nodes ([], False)) (\<lambda>(classContent, hasMain).
           if hasMain then
             Inr (''import java.util.Scanner;'' @ [newline, newline]
                  @ ''public class Main {'' @ [newline] @ classContent @ ''}'')
           else Inr classContent)
     | _ \<Rightarrow> Inr invalidJava)"

subsection \<open>Statements of the indentation dialect\<close>

text \<open>
  In \<open>generatePythonStatements\<close> the flag \<open>hasContent\<close> is set exactly when a
  statement with text other than white space has been appended, that is, when the
  code collected by the loop is not empty.
\<close>

definition jsvalString :: "jsval \<Rightarrow> string" where
  "jsvalString v =
    (case v of
       JUndefined \<Rightarrow> ''undefined''
     | JNull \<Rightarrow> ''null''
     | JString s \<Rightarrow> s
     | JNumber text \<Rightarrow> []
     | JObject n \<Rightarrow> [])"

text \<open>
  The three pieces of the \<open>range\<close> header of \<open>generatePythonForLoop\<close>:
  \<open>node.init.name || node.init.identifier\<close>, the start value and the end value.
  \<open>generatePythonExpression\<close> gives the empty string on a value that is not a node.
\<close>

definition pythonLoopVariable :: "jsenv \<Rightarrow> node \<Rightarrow> string" where
  "pythonLoopVariable env init =
    (if truthy env (nameField init) then jsvalString (nameField init)
     else jsvalString (identifierField init))"

definition pythonStartValue :: "jsenv \<Rightarrow> node \<Rightarrow> string" where
  "pythonStartValue env init =
    (if truthy env (valueField init) then
       (case valueField init of
          JObject v \<Rightarrow> str (generatePythonExpression env v)
        | _ \<Rightarrow> [])
     else ''0'')"

definition pythonEndValue :: "jsenv \<Rightarrow> node \<Rightarrow> string" where
  "pythonEndValue env condition =
    (case condition of
       BinaryExpression l operator r \<Rightarrow>
         if operator = ''<'' then str (generatePythonExpressionOpt env r)
         else if operator = ''<='' then str (generatePythonExpressionOpt env r) @ '' + 1''
         else ''10''
     | _ \<Rightarrow> ''10'')"

function (sequential) generatePythonStatements_loop :: "jsenv \<Rightarrow> node list \<Rightarrow> string \<Rightarrow> error + string"
  and generatePythonStatements :: "jsenv \<Rightarrow> node list \<Rightarrow> string \<Rightarrow> error + string"
  and generatePythonStatement :: "jsenv \<Rightarrow> node \<Rightarrow> string \<Rightarrow> error + string"
  and generatePythonIfStatement ::
    "jsenv \<Rightarrow> node option \<Rightarrow> node option \<Rightarrow> node option \<Rightarrow> string \<Rightarrow> error + string"
  and generatePythonForLoop ::
    "jsenv \<Rightarrow> node option \<Rightarrow> node option \<Rightarrow> node option \<Rightarrow> node option \<Rightarrow> string
     \<Rightarrow> error + string"
where
  "generatePythonStatements_loop env [] indent = Inr []"
| "generatePythonStatements_loop env (stmt # rest) indent =
    andThenE (generatePythonStatement env stmt indent) (\<lambda>stmtCode.
    andThenE (generatePythonStatements_loop env rest indent) (\<lambda>code.
      Inr ((if trim stmtCode \<noteq> [] then stmtCode else []) @ code)))"

| "generatePythonStatements env stmts indent =
    andThenE (generatePythonStatements_loop env stmts indent) (\<lambda>code.
      Inr (if code = [] then indent @ ''pass'' @ [newline] else code))"

| "generatePythonStatement env (Variable dataType name val) indent =
    Inr (indent @ str name @ '' = ''
         @ (case val of
              Some v \<Rightarrow> str (generatePythonExpression env v)
            | None \<Rightarrow> getPythonDefaultValue env dataType)
         @ [newline])"
| "generatePythonStatement env (Assignment ident operator val) indent =
    (if operator = ''++'' then Inr (indent @ str ident @ '' += 1'' @ [newline])
     else if operator = ''--'' then Inr (indent @ str ident @ '' -= 1'' @ [newline])
     else Inr (indent @ str ident @ '' '' @ operator @ '' ''
               @ str (generatePythonExpressionOpt env val) @ [newline]))"
| "generatePythonStatement env (PrintfStatement args) indent =
    generatePythonPrintf env args indent"
| "generatePythonStatement env (ScanfStatement args) indent =
    generatePythonScanf env args indent"
| "generatePythonStatement env (FunctionCall name args) indent =
    Inr (indent @ str name @ ''(''
         @ joinWith '', '' (map (generatePythonExpression env) args) @ '')'' @ [newline])"
| "generatePythonStatement env (IfStatement condition thenStatement elseStatement) indent =
    generatePythonIfStatement env condition thenStatement elseStatement indent"
| "generatePythonStatement env (WhileLoop condition loopBody) indent =
    andThenE
      (case loopBody of
         None \<Rightarrow> Inr []
       | Some stmt \<Rightarrow>
           (case blockBody stmt of
              Some stmts \<Rightarrow> generatePythonStatements env stmts (indent @ ''    '')
            | None \<Rightarrow> generatePythonStatement env stmt (indent @ ''    '')))
      (\<lambda>bodyCode.
         Inr (indent @ ''while '' @ str (generatePythonExpressionOpt env condition) @ '':''
              @ [newline] @ bodyCode))"
| "generatePythonStatement env (ForLoop init condition update loopBody) indent =
    generatePythonForLoop env init condition update loopBody indent"
| "generatePythonStatement env (ReturnStatement val) indent =
    Inr (indent @ ''return ''
         @ (case val of Some v \<Rightarrow> str (generatePythonExpression env v) | None \<Rightarrow> [])
         @ [newline])"
| "generatePythonStatement env (Block stmts) indent =
    generatePythonStatements env stmts indent"
| "generatePythonStatement env n indent = Inr []"

| "generatePythonIfStatement env condition thenStatement elseStatement indent =
    andThenE
      (case thenStatement of
         None \<Rightarrow> Inr []
       | Some stmt \<Rightarrow>
           (case blockBody stmt of
              Some stmts \<Rightarrow> generatePythonStatements env stmts (indent @ ''    '')
            | None \<Rightarrow> generatePythonStatement env stmt (indent @ ''    '')))
      (\<lambda>thenCode.
    andThenE
      (case elseStatement of
         None \<Rightarrow> Inr []
       | Some stmt \<Rightarrow>
           (case ifFields stmt of
              Some (c, t, e) \<Rightarrow>
                andThenE (generatePythonIfStatement env c t e []) (\<lambda>elseCode.
                  Inr (indent @ ''el'' @ trim elseCode @ [newline]))
            | None \<Rightarrow>
                (case blockBody stmt of
                   Some stmts \<Rightarrow>
                     andThenE (generatePythonStatements env stmts (indent @ ''    ''))
                       (\<lambda>elseCode. Inr (indent @ ''else:'' @ [newline] @ elseCode))
                 | None \<Rightarrow>
                     andThenE (generatePythonStatement env stmt (indent @ ''    ''))
                       (\<lambda>elseCode. Inr (indent @ ''else:'' @ [newline] @ elseCode)))))
      (\<lambda>elsePart.
         Inr (indent @ ''if '' @ str (generatePythonExpressionOpt env condition) @ '':''
              @ [newline] @ thenCode @ elsePart)))"

| "generatePythonForLoop env init condition update loopBody indent =
    (case init of
       None \<Rightarrow> Inr (indent @ ''# For loop conversion needed'' @ [newline])
     | Some i \<Rightarrow>
         (case condition of
            None \<Rightarrow> Inr (indent @ ''# For loop conversion needed'' @ [newline])
          | Some c \<Rightarrow>
              (case update of
                 None \<Rightarrow> Inr (indent @ ''# For loop conversion needed'' @ [newline])
               | Some u \<Rightarrow>
                   andThenE
                     (case loopBody of
                        None \<Rightarrow> Inr []
                      | Some stmt \<Rightarrow>
                          (case blockBody stmt of
                             Some stmts \<Rightarrow>
                               generatePythonStatements env stmts (indent @ ''    '')
                           | None \<Rightarrow> generatePythonStatement env stmt (indent @ ''    '')))
                     (\<lambda>bodyCode.
                        Inr (indent @ ''for '' @ pythonLoopVariable env i
                             @ '' in range('' @ pythonStartValue env i
                             @ '', '' @ pythonEndValue env c
                             @ ''):'' @ [newline] @ bodyCode)))))"
  by pat_completeness auto
termination
  by (relation "measure
        (case_sum
          (case_sum (\<lambda>(env, stmts, indent). 2 * size_list size stmts)
                    (\<lambda>(env, stmts, indent). 2 * size_list size stmts + 1))
          (case_sum (\<lambda>(env, n, indent). 2 * size n)
            (case_sum (\<lambda>(env, c, t, e, indent).
                         2 * (size_option size c + size_option size t + size_option size e))
                      (\<lambda>(env, i, c, u, b, indent).
                         2 * (size_option size i + size_option size c + size_option size u
                              + size_option size b)))))")
     (auto dest: blockBody_size ifFields_size)

subsection \<open>The method \<open>generatePython\<close>\<close>

fun generatePython_loop ::
  "jsenv \<Rightarrow> node list \<Rightarrow> string \<times> bool \<Rightarrow> error + (string \<times> bool)" where
  "generatePython_loop env [] acc = Inr acc"
| "generatePython_loop env (Include library # rest) acc = generatePython_loop env rest acc"
| "generatePython_loop env (Function returnType name params stmts # rest) (pythonCode, hasMain) =
    (if name = Some ''main'' then
       andThenE (generatePythonStatements env stmts ''    '') (\<lambda>code.
         generatePython_loop env rest
           (pythonCode @ ''def main():'' @ [newline] @ code @ [newline], True))
     else
       andThenE (generatePythonStatements env stmts ''    '') (\<lambda>code.
         generatePython_loop env rest
           (pythonCode @ ''def '' @ str name @ ''('' @ joinWith '', '' (map pname params)
            @ ''):'' @ [newline] @ code @ [newline], hasMain)))"
| "generatePython_loop env (stmt # rest) (pythonCode, hasMain) =
    andThenE (generatePythonStatement env stmt []) (\<lambda>code.
      generatePython_loop env rest (pythonCode @ code, hasMain))"

definition invalidPython :: string where
  "invalidPython = ''# Error: Invalid AST structure''"

definition generatePython :: "jsenv \<Rightarrow> ast \<Rightarrow> error + string" where
  "generatePython env root =
    (case body root of
       BodyArray nodes \<Rightarrow>
         andThenE (generatePython_loop env nodes ([], False)) (\<lambda>(pythonCode, hasMain).
           if hasMain then
             Inr (pythonCode @ ''if __name__ == '' @ [dquote] @ ''__main__'' @ [dquote] @ '':''
                  @ [newline] @ ''    main()'' @ [newline])
           else Inr pythonCode)
     | _ \<Rightarrow> Inr invalidPython)"

section \<open>Properties of the code generator\<close>

subsection \<open>Generated statements end their line\<close>

text \<open>
  Whatever a statement method returns is empty or ends with a line feed; so does the
  text that the two top-level loops collect.
\<close>

definition lineEnded :: "string \<Rightarrow> bool" where
  "lineEnded s = (s = [] \<or> last s = newline)"

definition okLines :: "error + string \<Rightarrow> bool" where
  "okLines r = (case r of Inl e \<Rightarrow> True | Inr s \<Rightarrow> lineEnded s)"

lemma lineEnded_Nil [simp]: "lineEnded []"
  by (simp add: lineEnded_def)

lemma lineEnded_append: "lineEnded a \<Longrightarrow> lineEnded b \<Longrightarrow> lineEnded (a @ b)"
  by (cases "b = []") (auto simp: lineEnded_def)

lemma lineEnded_append_iff [simp]:
  "lineEnded (s @ t) = (if t = [] then lineEnded s else lineEnded t)"
  by (auto simp: lineEnded_def)

lemma lineEnded_Cons [simp]:
  "lineEnded (c # s) = (if s = [] then c = newline else lineEnded s)"
  by (auto simp: lineEnded_def)

lemma lineEnded_last: "lineEnded (s @ [c]) = (c = newline)"
  by (simp add: lineEnded_def)

lemma okLines_Inr [simp]: "okLines (Inr s) = lineEnded s"
  by (simp add: okLines_def)

lemma okLines_Inl [simp]: "okLines (Inl e)"
  by (simp add: okLines_def)

lemma okLines_andThenE:
  assumes "okLines m" and "\<And>x. m = Inr x \<Longrightarrow> lineEnded x \<Longrightarrow> okLines (k x)"
  shows "okLines (andThenE m k)"
  using assms by (cases m) (auto simp: andThenE_def)

lemma okLines_andThenE_any:
  assumes "\<And>x. m = Inr x \<Longrightarrow> okLines (k x)"
  shows "okLines (andThenE m k)"
  using assms by (cases m) (auto simp: andThenE_def)

lemma okLines_generateJavaPrintf: "okLines (generateJavaPrintf env args indent)"
  by (auto simp: generateJavaPrintf_def lineEnded_def split: list.splits option.splits)

lemma okLines_scanfByFormat:
  "lineEnded a \<Longrightarrow> lineEnded b \<Longrightarrow> lineEnded c \<Longrightarrow> okLines (scanfByFormat env f a b c)"
  by (auto simp: scanfByFormat_def split: jsval.splits)

lemma okLines_generateJavaScanf: "okLines (generateJavaScanf env args indent)"
  by (auto simp: generateJavaScanf_def Let_def lineEnded_def intro!: okLines_scanfByFormat split: list.splits)

lemma okLines_generatePythonPrintf: "okLines (generatePythonPrintf env args indent)"
  by (auto simp: generatePythonPrintf_def lineEnded_def split: list.splits jsval.splits)

lemma okLines_generatePythonScanf: "okLines (generatePythonScanf env args indent)"
  by (auto simp: generatePythonScanf_def Let_def lineEnded_def intro!: okLines_scanfByFormat split: list.splits)

lemma java_lines:
  "okLines (generateJavaStatements env stmts indent)"
  "okLines (generateJavaStatement env n indent1)"
  "okLines (generateJavaIfStatement env c t e indent2)"
  "okLines (generateJavaForLoop env i c1 u b indent3)"
proof (induction env stmts indent and env n indent1 and env c t e indent2 and env i c1 u b indent3
    rule: generateJavaStatements_generateJavaStatement_generateJavaIfStatement_generateJavaForLoop.induct)
  case (2 env stmt rest indent)
  show ?case
    apply (subst generateJavaStatements.simps)
    apply (rule okLines_andThenE)
     apply (rule 2)
    apply (rule okLines_andThenE)
     apply (erule 2)
    apply simp
    done
next
  case (5 env args indent)
  then show ?case by (simp add: okLines_generateJavaPrintf)
next
  case (6 env args indent)
  then show ?case by (simp add: okLines_generateJavaScanf)
next
  case (9 env condition loopBody indent)
  have "okLines (case loopBody of None \<Rightarrow> Inr []
       | Some stmt \<Rightarrow>
           (case blockBody stmt of
              Some stmts \<Rightarrow> generateJavaStatements env stmts (indent @ ''    '')
            | None \<Rightarrow> generateJavaStatement env stmt (indent @ ''    '')))"
    using 9 by (simp split: option.split)
  then show ?case
    apply (subst generateJavaStatement.simps)
    apply (erule okLines_andThenE)
    apply simp
    done
next
  case (14 env condition thenStatement elseStatement indent)
  have th: "okLines (case thenStatement of None \<Rightarrow> Inr []
       | Some stmt \<Rightarrow>
           (case blockBody stmt of
              Some stmts \<Rightarrow> generateJavaStatements env stmts (indent @ ''    '')
            | None \<Rightarrow> generateJavaStatement env stmt (indent @ ''    '')))"
    using 14(1,2) by (simp split: option.split)
  show ?case
    apply (subst generateJavaIfStatement.simps)
    apply (rule okLines_andThenE [OF th])
    apply (rule okLines_andThenE_any)
    apply simp
    done
next
  case (15 env init condition update loopBody indent)
  show ?case
  proof (subst generateJavaForLoop.simps, rule okLines_andThenE_any)
    fix x
    assume ini: "(case init of None \<Rightarrow> Inr []
           | Some stmt \<Rightarrow>
               andThenE (generateJavaStatement env stmt [])
                (\<lambda>code. Inr (trim (dropFinalSemicolon code)))) = Inr x"
    have bd: "okLines (case loopBody of None \<Rightarrow> Inr []
       | Some stmt \<Rightarrow>
           (case blockBody stmt of
              Some stmts \<Rightarrow> generateJavaStatements env stmts (indent @ ''    '')
            | None \<Rightarrow> generateJavaStatement env stmt (indent @ ''    '')))"
      using 15(2,3) [OF ini] by (simp split: option.split)
    show "okLines (andThenE (case loopBody of None \<Rightarrow> Inr []
       | Some stmt \<Rightarrow>
           (case blockBody stmt of
              Some stmts \<Rightarrow> generateJavaStatements env stmts (indent @ ''    '')
            | None \<Rightarrow> generateJavaStatement env stmt (indent @ ''    '')))
      (\<lambda>bodyCode.
         Inr (indent @ ''for ('' @ x @ ''; ''
              @ (case condition of Some c \<Rightarrow> str (generateJavaExpression env c)
                 | None \<Rightarrow> [])
              @ ''; ''
              @ (case update of Some u \<Rightarrow> str (generateJavaExpression env u) | None \<Rightarrow> [])
              @ '') {'' @ [newline] @ bodyCode @ indent @ ''}'' @ [newline])))"
      by (rule okLines_andThenE [OF bd]) simp
  qed
next
  case (3 env dataType name val indent)
  then show ?case by simp
next
  case (4 env ident operator val indent)
  then show ?case by simp
next
  case (7 env name args indent)
  then show ?case by simp
next
  case (11 env val indent)
  then show ?case by simp
qed simp_all


lemma python_lines:
  "okLines (generatePythonStatements_loop env stmts indent)"
  "okLines (generatePythonStatements env stmts0 indent0)"
  "okLines (generatePythonStatement env n indent1)"
  "okLines (generatePythonIfStatement env c t e indent2)"
  "okLines (generatePythonForLoop env i c1 u b indent3)"
proof (induction env stmts indent and env stmts0 indent0 and env n indent1 and env c t e indent2
    and env i c1 u b indent3
    rule: generatePythonStatements_loop_generatePythonStatements_generatePythonStatement_generatePythonIfStatement_generatePythonForLoop.induct)
  case (2 env stmt rest indent)
  show ?case
    apply (subst generatePythonStatements_loop.simps)
    apply (rule okLines_andThenE)
     apply (rule 2)
    apply (rule okLines_andThenE)
     apply (erule 2)
    apply simp
    done
next
  case (3 env stmts indent)
  show ?case
    apply (subst generatePythonStatements.simps)
    apply (rule okLines_andThenE)
     apply (rule 3)
    apply simp
    done
next
  case (6 env args indent)
  then show ?case by (simp add: okLines_generatePythonPrintf)
next
  case (7 env args indent)
  then show ?case by (simp add: okLines_generatePythonScanf)
next
  case (10 env condition loopBody indent)
  have "okLines (case loopBody of None \<Rightarrow> Inr []
       | Some stmt \<Rightarrow>
           (case blockBody stmt of
              Some stmts \<Rightarrow> generatePythonStatements env stmts (indent @ ''    '')
            | None \<Rightarrow> generatePythonStatement env stmt (indent @ ''    '')))"
    using 10 by (simp split: option.split)
  then show ?case
    apply (subst generatePythonStatement.simps)
    apply (erule okLines_andThenE)
    apply simp
    done
next
  case (15 env condition thenStatement elseStatement indent)
  have th: "okLines (case thenStatement of None \<Rightarrow> Inr []
       | Some stmt \<Rightarrow>
           (case blockBody stmt of
              Some stmts \<Rightarrow> generatePythonStatements env stmts (indent @ ''    '')
            | None \<Rightarrow> generatePythonStatement env stmt (indent @ ''    '')))"
    using 15(1,2) by (simp split: option.split)
  show ?case
  proof (subst generatePythonIfStatement.simps, rule okLines_andThenE [OF th])
    fix x
    assume thx: "(case thenStatement of None \<Rightarrow> Inr []
       | Some stmt \<Rightarrow>
           (case blockBody stmt of
              Some stmts \<Rightarrow> generatePythonStatements env stmts (indent @ ''    '')
            | None \<Rightarrow> generatePythonStatement env stmt (indent @ ''    ''))) = Inr x"
      and lx: "lineEnded x"
    have el: "okLines (case elseStatement of
         None \<Rightarrow> Inr []
       | Some stmt \<Rightarrow>
           (case ifFields stmt of
              Some (c, t, e) \<Rightarrow>
                andThenE (generatePythonIfStatement env c t e []) (\<lambda>elseCode.
                  Inr (indent @ ''el'' @ trim elseCode @ [newline]))
            | None \<Rightarrow>
                (case blockBody stmt of
                   Some stmts \<Rightarrow>
                     andThenE (generatePythonStatements env stmts (indent @ ''    ''))
                       (\<lambda>elseCode. Inr (indent @ ''else:'' @ [newline] @ elseCode))
                 | None \<Rightarrow>
                     andThenE (generatePythonStatement env stmt (indent @ ''    ''))
                       (\<lambda>elseCode. Inr (indent @ ''else:'' @ [newline] @ elseCode)))))"
    proof (cases elseStatement)
      case None
      then show ?thesis by simp
    next
      case (Some stmt)
      show ?thesis
      proof (cases "ifFields stmt")
        case (Some cte)
        obtain c t e where cte: "cte = (c, t, e)" by (cases cte) auto
        have "okLines (generatePythonIfStatement env c t e [])"
          using 15(5) [OF thx \<open>elseStatement = Some stmt\<close> Some] cte by simp
        then show ?thesis
          using \<open>elseStatement = Some stmt\<close> Some cte
          by (simp add: okLines_andThenE)
      next
        case None
        show ?thesis
        proof (cases "blockBody stmt")
          case (Some stmts)
          have "okLines (generatePythonStatements env stmts (indent @ ''    ''))"
            using 15(4) [OF thx \<open>elseStatement = Some stmt\<close> None Some] .
          then show ?thesis
            using \<open>elseStatement = Some stmt\<close> None Some
            by (simp add: okLines_andThenE)
        next
          case bn: None
          have "okLines (generatePythonStatement env stmt (indent @ ''    ''))"
            using 15(3) [OF thx \<open>elseStatement = Some stmt\<close> None bn] .
          then show ?thesis
            using \<open>elseStatement = Some stmt\<close> None bn
            by (simp add: okLines_andThenE)
        qed
      qed
    qed
    show "okLines (andThenE (case elseStatement of
         None \<Rightarrow> Inr []
       | Some stmt \<Rightarrow>
           (case ifFields stmt of
              Some (c, t, e) \<Rightarrow>
                andThenE (generatePythonIfStatement env c t e []) (\<lambda>elseCode.
                  Inr (indent @ ''el'' @ trim elseCode @ [newline]))
            | None \<Rightarrow>
                (case blockBody stmt of
                   Some stmts \<Rightarrow>
                     andThenE (generatePythonStatements env stmts (indent @ ''    ''))
                       (\<lambda>elseCode. Inr (indent @ ''else:'' @ [newline] @ elseCode))
                 | None \<Rightarrow>
                     andThenE (generatePythonStatement env stmt (indent @ ''    ''))
                       (\<lambda>elseCode. Inr (indent @ ''else:'' @ [newline] @ elseCode)))))
      (\<lambda>elsePart.
         Inr (indent @ ''if '' @ str (generatePythonExpressionOpt env condition) @ '':''
              @ [newline] @ x @ elsePart)))"
      using lx by (intro okLines_andThenE [OF el]) simp
  qed
next
  case (16 env init condition update loopBody indent)
  show ?case
  proof (cases "init = None \<or> condition = None \<or> update = None")
    case True
    then show ?thesis
      by (subst generatePythonForLoop.simps) (auto split: option.split)
  next
    case False
    then obtain i c u where icu: "init = Some i" "condition = Some c" "update = Some u"
      by auto
    have bd: "okLines (case loopBody of None \<Rightarrow> Inr []
       | Some stmt \<Rightarrow>
           (case blockBody stmt of
              Some stmts \<Rightarrow> generatePythonStatements env stmts (indent @ ''    '')
            | None \<Rightarrow> generatePythonStatement env stmt (indent @ ''    '')))"
      using 16 [OF icu] by (simp split: option.split)
    show ?thesis
      apply (subst generatePythonForLoop.simps)
      apply (simp add: icu)
      apply (rule okLines_andThenE [OF bd])
      apply simp
      done
  qed
qed simp_all


lemma generateJavaStatements_lineEnded:
  "generateJavaStatements env stmts indent = Inr s \<Longrightarrow> lineEnded s"
  using java_lines(1) [of env stmts indent] by simp

lemma generateJavaStatement_lineEnded:
  "generateJavaStatement env n indent = Inr s \<Longrightarrow> lineEnded s"
  using java_lines(2) [of env n indent] by simp

lemma generatePythonStatements_lineEnded:
  "generatePythonStatements env stmts indent = Inr s \<Longrightarrow> lineEnded s"
  using python_lines(2) [of env stmts indent] by simp

lemma generatePythonStatement_lineEnded:
  "generatePythonStatement env n indent = Inr s \<Longrightarrow> lineEnded s"
  using python_lines(3) [of env n indent] by simp

lemma generateJava_loop_lines:
  "lineEnded (fst acc) \<Longrightarrow> generateJava_loop env nodes acc = Inr r \<Longrightarrow> lineEnded (fst r)"
proof (induction env nodes acc arbitrary: r rule: generateJava_loop.induct)
  case (3 env returnType name params stmts rest classContent hasMain)
  from 3(4) obtain code where
    code: "generateJavaStatements env stmts ''        '' = Inr code"
    by (auto simp: andThenE_def split: sum.splits if_splits)
  have lc: "lineEnded code"
    using code by (rule generateJavaStatements_lineEnded)
  show ?case
  proof (cases "name = Some ''main''")
    case True
    with 3(4) code have
      "generateJava_loop env rest
         (classContent @ ''    public static void main(String[] args) {'' @ [newline]
            @ ''        Scanner scanner = new Scanner(System.in);'' @ [newline]
            @ code
            @ ''        scanner.close();'' @ [newline]
            @ ''    }'' @ [newline, newline], True) = Inr r"
      by (simp add: andThenE_def)
    then show ?thesis
      by (rule 3(1) [OF True code, rotated]) simp
  next
    case False
    with 3(4) code have
      "generateJava_loop env rest
           (classContent @ ''    public static '' @ mapJavaType env returnType @ '' ''
            @ str name @ ''(''
            @ joinWith '', ''
                (map (\<lambda>p. Some (mapJavaType env (Some (ptype p)) @ '' '' @ str (pname p)))
                   params)
            @ '') {'' @ [newline]
            @ code
            @ ''    }'' @ [newline, newline], hasMain) = Inr r"
      by (simp add: andThenE_def)
    then show ?thesis
      by (rule 3(2) [OF False code, rotated]) simp
  qed
qed (auto simp: andThenE_def simp del: generateJavaStatement.simps split: sum.splits
      dest: generateJavaStatement_lineEnded)


lemma generatePython_loop_lines:
  "lineEnded (fst acc) \<Longrightarrow> generatePython_loop env nodes acc = Inr r \<Longrightarrow> lineEnded (fst r)"
proof (induction env nodes acc arbitrary: r rule: generatePython_loop.induct)
  case (3 env returnType name params stmts rest pythonCode hasMain)
  from 3(4) obtain code where
    code: "generatePythonStatements env stmts ''    '' = Inr code"
    by (auto simp: andThenE_def split: sum.splits if_splits)
  show ?case
  proof (cases "name = Some ''main''")
    case True
    with 3(4) code have
      "generatePython_loop env rest
           (pythonCode @ ''def main():'' @ [newline] @ code @ [newline], True) = Inr r"
      by (simp add: andThenE_def)
    then show ?thesis
      by (rule 3(1) [OF True code, rotated]) simp
  next
    case False
    with 3(4) code have
      "generatePython_loop env rest
           (pythonCode @ ''def '' @ str name @ ''('' @ joinWith '', '' (map pname params)
            @ ''):'' @ [newline] @ code @ [newline], hasMain) = Inr r"
      by (simp add: andThenE_def)
    then show ?thesis
      by (rule 3(2) [OF False code, rotated]) simp
  qed
qed (auto simp: andThenE_def simp del: generatePythonStatement.simps split: sum.splits
      dest: generatePythonStatement_lineEnded)

lemma not_lineEnded_invalid: "\<not> lineEnded invalidJava" "\<not> lineEnded invalidPython"
  by (simp_all add: invalidJava_def invalidPython_def newline_def)

lemma generateJava_array_not_invalid:
  assumes "body root = BodyArray nodes"
  shows "generateJava env root \<noteq> Inr invalidJava"
proof
  assume eq: "generateJava env root = Inr invalidJava"
  then obtain classContent hasMain where
    loop: "generateJava_loop env nodes ([], False) = Inr (classContent, hasMain)"
    using assms by (auto simp: generateJava_def andThenE_def split: sum.splits)
  have le: "lineEnded classContent"
    using generateJava_loop_lines [OF _ loop] by simp
  show False
  proof (cases hasMain)
    case True
    with eq assms loop show False
      by (simp add: generateJava_def andThenE_def invalidJava_def)
  next
    case False
    with eq assms loop have "classContent = invalidJava"
      by (simp add: generateJava_def andThenE_def)
    with le not_lineEnded_invalid(1) show False by simp
  qed
qed

lemma generatePython_array_not_invalid:
  assumes "body root = BodyArray nodes"
  shows "generatePython env root \<noteq> Inr invalidPython"
proof
  assume eq: "generatePython env root = Inr invalidPython"
  then obtain pythonCode hasMain where
    loop: "generatePython_loop env nodes ([], False) = Inr (pythonCode, hasMain)"
    using assms by (auto simp: generatePython_def andThenE_def split: sum.splits)
  have le: "lineEnded pythonCode"
    using generatePython_loop_lines [OF _ loop] by simp
  show False
  proof (cases hasMain)
    case True
    with eq assms loop have "lineEnded invalidPython"
      by (simp add: generatePython_def andThenE_def) (metis lineEnded_append_iff lineEnded_Cons list.distinct(1) append_is_Nil_conv)
    with not_lineEnded_invalid(2) show False by simp
  next
    case False
    with eq assms loop have "pythonCode = invalidPython"
      by (simp add: generatePython_def andThenE_def)
    with le not_lineEnded_invalid(2) show False by simp
  qed
qed

text \<open>
  Claim C6. For every root, \<open>generateJava\<close> returns the diagnostic
  \<open>// Error: Invalid AST structure\<close> exactly when the \<open>body\<close> of the root is missing or
  is not an array, and \<open>generatePython\<close> returns \<open># Error: Invalid AST structure\<close>
  exactly then; in that case they return it (\<open>Inr\<close>) and raise nothing, and both
  diagnostics are a single line. With an array as body a generator may raise a
  TypeError or return text, but never this diagnostic.
\<close>

theorem invalid_root_diagnostic:
  "(generateJava env root = Inr invalidJava) = (\<forall>nodes. body root \<noteq> BodyArray nodes)
   \<and> (generatePython env root = Inr invalidPython) = (\<forall>nodes. body root \<noteq> BodyArray nodes)
   \<and> newline \<notin> set invalidJava \<and> newline \<notin> set invalidPython"
proof -
  have "generateJava env root = Inr invalidJava" "generatePython env root = Inr invalidPython"
    if "\<forall>nodes. body root \<noteq> BodyArray nodes"
    using that by (cases "body root"; simp add: generateJava_def generatePython_def)+
  moreover have "newline \<notin> set invalidJava" "newline \<notin> set invalidPython"
    by (simp_all add: invalidJava_def invalidPython_def newline_def)
  ultimately show ?thesis
    using generateJava_array_not_invalid generatePython_array_not_invalid by blast
qed

text \<open>An environment for the witnesses below: any other would do.\<close>

definition exampleEnv :: jsenv where
  "exampleEnv =
    \<lparr>numberToString = (\<lambda>text. text), numberTruthy = (\<lambda>text. text \<noteq> ''0''),
     inheritedProperty = (\<lambda>key. None)\<rparr>"

theorem invalid_root_diagnostic_witness:
  "generateJava exampleEnv \<lparr>type = ''Program'', body = BodyMissing\<rparr> = Inr invalidJava
   \<and> generatePython exampleEnv \<lparr>type = ''Program'', body = BodyNotArray\<rparr> = Inr invalidPython
   \<and> generateJava exampleEnv \<lparr>type = ''Program'', body = BodyArray []\<rparr> \<noteq> Inr invalidJava"
  using invalid_root_diagnostic [of exampleEnv "\<lparr>type = ''Program'', body = BodyMissing\<rparr>"]
    invalid_root_diagnostic [of exampleEnv "\<lparr>type = ''Program'', body = BodyNotArray\<rparr>"]
    invalid_root_diagnostic [of exampleEnv "\<lparr>type = ''Program'', body = BodyArray []\<rparr>"]
  by simp

subsection \<open>The counting loop\<close>

definition forLoopSource :: string where
  "forLoopSource =
    ''for (i = 0; i < 5; i++) { printf('' @ [dquote] @ ''%d'' @ [dquote] @ '', i); }''"

definition forLoopTree :: ast where
  "forLoopTree =
    \<lparr>type = ''Program'',
     body = BodyArray
       [ForLoop
          (Some (Assignment (Some ''i'') ''='' (Some (Literal (NumberValue ''0'') ''int''))))
          (Some (BinaryExpression (Some (Identifier (Some ''i''))) ''<''
                   (Some (Literal (NumberValue ''5'') ''int''))))
          (Some (Identifier (Some ''i'')))
          None,
        Block [PrintfStatement [Literal (StringValue ''%d'') ''string'',
                                Identifier (Some ''i'')]]]\<rparr>"

text \<open>
  Claim C5. On \<open>for (i = 0; i < 5; i++) { printf("%d", i); }\<close> the update clause is
  read by \<open>parseExpression\<close>, which takes \<open>i\<close> and leaves \<open>++\<close>. The closing
  parenthesis is then not skipped, the body of the loop is parsed from the token \<open>++\<close>
  and is null, and the block with the \<open>printf\<close> becomes a second statement of the
  program. The indentation dialect gets the header \<open>for i in range(0, 5):\<close> with
  nothing under it, followed by the \<open>print\<close> at the top level: the loop does not
  contain its body. (The two numbers are written by \<open>numberToString\<close>.)
\<close>

theorem for_loop_body_left_outside:
  "parse (tokenize (LexicalAnalyzer forLoopSource)) = Some (Inr forLoopTree)
   \<and> generatePython env forLoopTree =
       Inr (''for i in range('' @ numberToString env ''0'' @ '', '' @ numberToString env ''5''
            @ ''):'' @ [newline]
            @ ''print('' @ [dquote] @ ''{}'' @ [dquote] @ ''.format(i))'' @ [newline])"
proof
  show "parse (tokenize (LexicalAnalyzer forLoopSource)) = Some (Inr forLoopTree)"
    by code_simp
  show "generatePython env forLoopTree =
       Inr (''for i in range('' @ numberToString env ''0'' @ '', '' @ numberToString env ''5''
            @ ''):'' @ [newline]
            @ ''print('' @ [dquote] @ ''{}'' @ [dquote] @ ''.format(i))'' @ [newline])"
    by (simp add: forLoopTree_def generatePython_def andThenE_def pythonLoopVariable_def
        pythonStartValue_def pythonEndValue_def truthy_def ofString_def ofNode_def
        jsvalString_def generatePythonPrintf_def str_def litString_def
        generatePythonExpressionOpt_def trim_def isSpace_def newline_def dquote_def
        blockBody_def)
qed

text \<open>
  With \<open><=\<close> in the condition the end of the range is written \<open>5 + 1\<close>; the body
  is left outside in the same way.
\<close>

lemma for_loop_less_equal:
  "generatePythonForLoop env
     (Some (Assignment (Some ''i'') ''='' (Some (Literal (NumberValue ''0'') ''int''))))
     (Some (BinaryExpression (Some (Identifier (Some ''i''))) ''<=''
              (Some (Literal (NumberValue ''5'') ''int''))))
     (Some (Identifier (Some ''i''))) None [] =
   Inr (''for i in range('' @ numberToString env ''0'' @ '', '' @ numberToString env ''5''
        @ '' + 1):'' @ [newline])"
  by (simp add: andThenE_def pythonLoopVariable_def pythonStartValue_def pythonEndValue_def
      truthy_def ofString_def ofNode_def jsvalString_def str_def litString_def
      generatePythonExpressionOpt_def)

section \<open>Properties of the syntax analyser\<close>

subsection \<open>What \<open>parse\<close> returns\<close>

lemma parse_with_shape:
  assumes "parse_with n toks = Some (Inr root)"
  shows "type root = ''Program'' \<and> (\<exists>nodes. body root = BodyArray nodes)"
  using assms
  by (auto simp: parse_with_def andThen_def ok_def split: option.splits sum.splits)

text \<open>
  Claim C9. Whenever \<open>parse\<close> returns a node, for any token list, the node has the
  type \<open>Program\<close> and its body is an array; given to either generator, it never
  yields the diagnostic of the invalid root.
\<close>

theorem parse_result_is_program:
  assumes "parse toks = Some (Inr root)"
  shows "type root = ''Program'' \<and> (\<exists>nodes. body root = BodyArray nodes)
         \<and> generateJava env root \<noteq> Inr invalidJava
         \<and> generatePython env root \<noteq> Inr invalidPython"
proof -
  from assms have shape: "type root = ''Program'' \<and> (\<exists>nodes. body root = BodyArray nodes)"
    unfolding parse_def by (rule parse_with_shape)
  then obtain nodes where "body root = BodyArray nodes"
    by blast
  then have "generateJava env root \<noteq> Inr invalidJava"
    and "generatePython env root \<noteq> Inr invalidPython"
    by (rule generateJava_array_not_invalid, rule generatePython_array_not_invalid)
  with shape show ?thesis
    by simp
qed

theorem parse_result_is_program_witness:
  "parse (tokenize (LexicalAnalyzer ''x = 1;'')) =
     Some (Inr \<lparr>type = ''Program'',
                body = BodyArray [Assignment (Some ''x'') ''=''
                                    (Some (Literal (NumberValue ''1'') ''int''))]\<rparr>)
   \<and> generateJava exampleEnv
         \<lparr>type = ''Program'',
          body = BodyArray [Assignment (Some ''x'') ''=''
                              (Some (Literal (NumberValue ''1'') ''int''))]\<rparr>
       \<noteq> Inr invalidJava
   \<and> generatePython exampleEnv
         \<lparr>type = ''Program'',
          body = BodyArray [Assignment (Some ''x'') ''=''
                              (Some (Literal (NumberValue ''1'') ''int''))]\<rparr>
       \<noteq> Inr invalidPython"
proof -
  have p: "parse (tokenize (LexicalAnalyzer ''x = 1;'')) =
     Some (Inr \<lparr>type = ''Program'',
                body = BodyArray [Assignment (Some ''x'') ''=''
                                    (Some (Literal (NumberValue ''1'') ''int''))]\<rparr>)"
    by code_simp
  show ?thesis
    using p parse_result_is_program [OF p, of exampleEnv] by simp
qed

subsection \<open>Every call returns\<close>

text \<open>
  \<open>lands toks lo r\<close> says of the result \<open>r\<close> of a parsing method that the fuel was
  enough, that an exception was raised only if some NUMBER token has a null value, and
  that a returned position is at least \<open>lo\<close>. \<open>need toks pos k\<close> is the fuel that
  suffices at position \<open>pos\<close> for a method of rank \<open>k\<close>: sixteen units for every token
  that is left, and \<open>k\<close> for the calls that can follow each other at one position.
\<close>

definition wellValued :: "token list \<Rightarrow> bool" where
  "wellValued toks = (\<forall>t \<in> set toks. ttype t = NUMBER \<longrightarrow> tvalue t \<noteq> None)"

definition lands :: "token list \<Rightarrow> nat \<Rightarrow> ('a \<times> nat) result \<Rightarrow> bool" where
  "lands toks lo r =
    (case r of
       None \<Rightarrow> False
     | Some (Inl e) \<Rightarrow> \<not> wellValued toks
     | Some (Inr (v, p)) \<Rightarrow> lo \<le> p)"

definition next_pos :: "token list \<Rightarrow> nat \<Rightarrow> nat" where
  "next_pos toks pos = (if pos < length toks then pos + 1 else pos)"

definition need :: "token list \<Rightarrow> nat \<Rightarrow> nat \<Rightarrow> nat" where
  "need toks pos k = 16 * (length toks - pos) + k"

lemma lands_ok [simp]: "lands toks lo (ok (v, p)) = (lo \<le> p)"
  by (simp add: lands_def ok_def)

lemma lands_raise [simp]: "lands toks lo (raise e) = (\<not> wellValued toks)"
  by (simp add: lands_def raise_def)

lemma lands_None [simp]: "\<not> lands toks lo None"
  by (simp add: lands_def)

lemma lands_mono: "lands toks lo r \<Longrightarrow> lo' \<le> lo \<Longrightarrow> lands toks lo' r"
  by (auto simp: lands_def split: option.splits sum.splits)

lemma lands_andThen:
  assumes "lands toks lo1 m" and "\<And>v p. lo1 \<le> p \<Longrightarrow> lands toks lo (k v p)"
  shows "lands toks lo (andThen m (\<lambda>(v, p). k v p))"
proof (cases m)
  case None
  with assms(1) show ?thesis by simp
next
  case (Some r)
  show ?thesis
  proof (cases r)
    case (Inl e)
    with Some assms(1) show ?thesis by (simp add: andThen_def lands_def)
  next
    case (Inr vp)
    obtain v p where vp: "vp = (v, p)" by (cases vp) auto
    from assms(1) Some Inr vp have "lo1 \<le> p" by (simp add: lands_def)
    then have "lands toks lo (k v p)" by (rule assms(2))
    with Some Inr vp show ?thesis by (simp add: andThen_def)
  qed
qed

lemma getCurrentToken_Some: "getCurrentToken toks pos = Some t \<Longrightarrow> pos < length toks"
  by (simp add: getCurrentToken_def split: if_splits)

lemma getCurrentToken_None: "getCurrentToken toks pos = None \<Longrightarrow> length toks \<le> pos"
  by (simp add: getCurrentToken_def split: if_splits)

lemma hasValue_in_range: "hasValue (getCurrentToken toks pos) v \<Longrightarrow> pos < length toks"
  by (simp add: hasValue_def getCurrentToken_def split: if_splits)

lemma matchValue_in_range:
  "matchValue (getCurrentToken toks pos) vs = Some v \<Longrightarrow> pos < length toks"
  by (simp add: matchValue_def getCurrentToken_def split: if_splits)

lemma skipToken_bounds: "pos \<le> skipToken toks pos v" "skipToken toks pos v \<le> pos + 1"
  by (simp_all add: skipToken_def)

lemma le_skipToken: "a \<le> p \<Longrightarrow> a \<le> skipToken toks p v"
  using skipToken_bounds(1) [of p toks v] by simp

lemma level_step:
  assumes sub: "need toks pos ks \<le> n \<longrightarrow> lands toks (next_pos toks pos) m"
    and loop: "\<And>left p. need toks p 1 \<le> n \<longrightarrow> lands toks p (k left p)"
    and ks: "1 \<le> ks" "ks < j"
  shows "need toks pos j \<le> Suc n
         \<longrightarrow> lands toks (next_pos toks pos) (andThen m (\<lambda>(left, p). k left p))"
proof
  assume b: "need toks pos j \<le> Suc n"
  with ks have "need toks pos ks \<le> n"
    by (simp add: need_def)
  with sub have m: "lands toks (next_pos toks pos) m"
    by simp
  show "lands toks (next_pos toks pos) (andThen m (\<lambda>(left, p). k left p))"
  proof (rule lands_andThen [OF m])
    fix v p
    assume p: "next_pos toks pos \<le> p"
    then have "need toks p 1 \<le> n"
      using b ks by (simp add: need_def next_pos_def split: if_splits)
    with loop have "lands toks p (k v p)"
      by simp
    then show "lands toks (next_pos toks pos) (k v p)"
      using p by (rule lands_mono)
  qed
qed

lemma loop_step:
  assumes sub: "\<And>operator. matchValue (getCurrentToken toks pos) ops = Some operator \<Longrightarrow>
      need toks (pos + 1) ks \<le> n \<longrightarrow> lands toks (next_pos toks (pos + 1)) m"
    and loop: "\<And>operator right p.
      matchValue (getCurrentToken toks pos) ops = Some operator \<Longrightarrow>
      need toks p 1 \<le> n \<longrightarrow> lands toks p (k operator right p)"
    and ks: "ks \<le> 16"
  shows "need toks pos 1 \<le> Suc n
         \<longrightarrow> lands toks pos
              (case matchValue (getCurrentToken toks pos) ops of
                 None \<Rightarrow> ok (left, pos)
               | Some operator \<Rightarrow> andThen m (\<lambda>(right, p). k operator right p))"
proof
  assume b: "need toks pos 1 \<le> Suc n"
  show "lands toks pos
              (case matchValue (getCurrentToken toks pos) ops of
                 None \<Rightarrow> ok (left, pos)
               | Some operator \<Rightarrow> andThen m (\<lambda>(right, p). k operator right p))"
  proof (cases "matchValue (getCurrentToken toks pos) ops")
    case None
    then show ?thesis by simp
  next
    case (Some operator)
    then have r: "pos < length toks"
      by (rule matchValue_in_range)
    with b ks have "need toks (pos + 1) ks \<le> n"
      by (simp add: need_def)
    with sub [OF Some] have m: "lands toks (next_pos toks (pos + 1)) m"
      by simp
    have "lands toks pos (andThen m (\<lambda>(right, p). k operator right p))"
    proof (rule lands_andThen [OF m])
      fix v p
      assume p: "next_pos toks (pos + 1) \<le> p"
      then have "need toks p 1 \<le> n"
        using b r by (simp add: need_def next_pos_def split: if_splits)
      with loop [OF Some] have "lands toks p (k operator v p)"
        by simp
      moreover have "pos \<le> p"
        using p by (simp add: next_pos_def split: if_splits)
      ultimately show "lands toks pos (k operator v p)"
        by (rule lands_mono)
    qed
    with Some show ?thesis by simp
  qed
qed

lemma expressions_return:
  "need toks pos 8 \<le> n \<longrightarrow> lands toks (next_pos toks pos) (parseExpression n toks pos)"
  "need toks pos 7 \<le> n \<longrightarrow> lands toks (next_pos toks pos) (parseOrExpression n toks pos)"
  "need toks pos 1 \<le> n \<longrightarrow> lands toks pos (parseOrExpression_loop n toks pos left)"
  "need toks pos 6 \<le> n \<longrightarrow> lands toks (next_pos toks pos) (parseAndExpression n toks pos)"
  "need toks pos 1 \<le> n \<longrightarrow> lands toks pos (parseAndExpression_loop n toks pos left)"
  "need toks pos 5 \<le> n \<longrightarrow> lands toks (next_pos toks pos) (parseEqualityExpression n toks pos)"
  "need toks pos 1 \<le> n \<longrightarrow> lands toks pos (parseEqualityExpression_loop n toks pos left)"
  "need toks pos 4 \<le> n \<longrightarrow> lands toks (next_pos toks pos) (parseRelationalExpression n toks pos)"
  "need toks pos 1 \<le> n \<longrightarrow> lands toks pos (parseRelationalExpression_loop n toks pos left)"
  "need toks pos 3 \<le> n \<longrightarrow> lands toks (next_pos toks pos) (parseAdditiveExpression n toks pos)"
  "need toks pos 1 \<le> n \<longrightarrow> lands toks pos (parseAdditiveExpression_loop n toks pos left)"
  "need toks pos 2 \<le> n \<longrightarrow> lands toks (next_pos toks pos) (parseMultiplicativeExpression n toks pos)"
  "need toks pos 1 \<le> n \<longrightarrow> lands toks pos (parseMultiplicativeExpression_loop n toks pos left)"
  "need toks pos 1 \<le> n \<longrightarrow> lands toks (next_pos toks pos) (parsePrimaryExpression n toks pos)"
  "(if hasValue (getCurrentToken toks (pos + 1)) ''('' then need toks (pos + 2) 10
    else need toks pos 9) \<le> n
   \<longrightarrow> lands toks (next_pos toks pos) (parseAssignmentOrFunctionCall n toks pos)"
  "need toks pos 9 \<le> n \<longrightarrow> lands toks pos (parseArguments_loop n toks pos args)"
proof (induction n toks pos and n toks pos and n toks pos left and n toks pos
    and n toks pos left and n toks pos and n toks pos left and n toks pos
    and n toks pos left and n toks pos and n toks pos left and n toks pos
    and n toks pos left and n toks pos and n toks pos and n toks pos args
    rule: parseExpression_parseOrExpression_parseOrExpression_loop_parseAndExpression_parseAndExpression_loop_parseEqualityExpression_parseEqualityExpression_loop_parseRelationalExpression_parseRelationalExpression_loop_parseAdditiveExpression_parseAdditiveExpression_loop_parseMultiplicativeExpression_parseMultiplicativeExpression_loop_parsePrimaryExpression_parseAssignmentOrFunctionCall_parseArguments_loop.induct)
  case (2 n toks pos)
  then show ?case by (simp add: need_def)
next
  case (4 n toks pos)
  show ?case
    unfolding parseOrExpression.simps
    by (rule level_step [where ks = 6]) (use 4 in simp_all)
next
  case (8 n toks pos)
  show ?case
    unfolding parseAndExpression.simps
    by (rule level_step [where ks = 5]) (use 8 in simp_all)
next
  case (12 n toks pos)
  show ?case
    unfolding parseEqualityExpression.simps
    by (rule level_step [where ks = 4]) (use 12 in simp_all)
next
  case (16 n toks pos)
  show ?case
    unfolding parseRelationalExpression.simps
    by (rule level_step [where ks = 3]) (use 16 in simp_all)
next
  case (20 n toks pos)
  show ?case
    unfolding parseAdditiveExpression.simps
    by (rule level_step [where ks = 2]) (use 20 in simp_all)
next
  case (24 n toks pos)
  show ?case
    unfolding parseMultiplicativeExpression.simps
    by (rule level_step [where ks = 1]) (use 24 in simp_all)
next
  case (6 n toks pos left)
  show ?case
    unfolding parseOrExpression_loop.simps
    by (rule loop_step [where ks = 6]) (use 6 in simp_all)
next
  case (10 n toks pos left)
  show ?case
    unfolding parseAndExpression_loop.simps
    by (rule loop_step [where ks = 5]) (use 10 in simp_all)
next
  case (14 n toks pos left)
  show ?case
    unfolding parseEqualityExpression_loop.simps
    by (rule loop_step [where ks = 4]) (use 14 in simp_all)
next
  case (18 n toks pos left)
  show ?case
    unfolding parseRelationalExpression_loop.simps
    by (rule loop_step [where ks = 3]) (use 18 in simp_all)
next
  case (22 n toks pos left)
  show ?case
    unfolding parseAdditiveExpression_loop.simps
    by (rule loop_step [where ks = 2]) (use 22 in simp_all)
next
  case (26 n toks pos left)
  show ?case
    unfolding parseMultiplicativeExpression_loop.simps
    by (rule loop_step [where ks = 1]) (use 26 in simp_all)
next
  case (28 n toks pos)
  show ?case
  proof
    assume b: "need toks pos 1 \<le> Suc n"
    show "lands toks (next_pos toks pos) (parsePrimaryExpression (Suc n) toks pos)"
    proof (cases "getCurrentToken toks pos")
      case None
      then show ?thesis
        using getCurrentToken_None [OF None] by (simp add: next_pos_def)
    next
      case (Some token)
      then have r: "pos < length toks"
        by (rule getCurrentToken_Some)
      then have np: "next_pos toks pos = pos + 1"
        by (simp add: next_pos_def)
      from b r have n16: "16 * (length toks - (pos + 1)) + 16 \<le> n"
        by (simp add: need_def)
      consider (lit) "ttype token = NUMBER \<or> ttype token = STRING"
        | (call) "ttype token = IDENTIFIER" "hasValue (getCurrentToken toks (pos + 1)) ''(''"
        | (ident) "ttype token = IDENTIFIER" "\<not> hasValue (getCurrentToken toks (pos + 1)) ''(''"
        | (paren) "ttype token \<noteq> NUMBER" "ttype token \<noteq> STRING" "ttype token \<noteq> IDENTIFIER"
            "tvalue token = Some ''(''"
        | (amp) "ttype token \<noteq> NUMBER" "ttype token \<noteq> STRING" "ttype token \<noteq> IDENTIFIER"
            "tvalue token \<noteq> Some ''(''" "tvalue token = Some ''&''"
        | (other) "ttype token \<noteq> NUMBER" "ttype token \<noteq> STRING" "ttype token \<noteq> IDENTIFIER"
            "tvalue token \<noteq> Some ''(''" "tvalue token \<noteq> Some ''&''"
        by blast
      then show ?thesis
      proof cases
        case lit
        have "toks ! pos \<in> set toks"
          using r by simp
        then have "\<not> wellValued toks" if "ttype token = NUMBER" "tvalue token = None"
          using that Some r by (auto simp: wellValued_def getCurrentToken_def)
        then show ?thesis
          using Some np lit by (auto split: option.splits)
      next
        case call
        from call(2) have "pos + 1 < length toks"
          by (rule hasValue_in_range)
        with n16 have "need toks (pos + 2) 10 \<le> n"
          by (simp add: need_def)
        with 28(1) [OF Some _ _ call] call have
          "lands toks (next_pos toks pos) (parseAssignmentOrFunctionCall n toks pos)"
          by simp
        with Some call show ?thesis by simp
      next
        case ident
        with Some np show ?thesis by simp
      next
        case paren
        from n16 have "need toks (pos + 1) 8 \<le> n"
          by (simp add: need_def)
        with 28(2) [OF Some paren] have
          m: "lands toks (next_pos toks (pos + 1)) (parseExpression n toks (pos + 1))"
          by simp
        have "lands toks (next_pos toks pos)
           (andThen (parseExpression n toks (pos + 1))
             (\<lambda>(expr, p). ok (expr, skipToken toks p '')'')))"
          by (rule lands_andThen [OF m])
            (use np in \<open>auto simp: next_pos_def intro!: le_skipToken split: if_splits\<close>)
        with Some paren show ?thesis by simp
      next
        case amp
        from n16 have "need toks (pos + 1) 1 \<le> n"
          by (simp add: need_def)
        with 28(3) [OF Some amp] have
          m: "lands toks (next_pos toks (pos + 1)) (parsePrimaryExpression n toks (pos + 1))"
          by simp
        have "lands toks (next_pos toks pos)
           (andThen (parsePrimaryExpression n toks (pos + 1))
             (\<lambda>(expr, p). ok (Some (UnaryExpression ''&'' expr), p)))"
          by (rule lands_andThen [OF m])
            (use np in \<open>auto simp: next_pos_def split: if_splits\<close>)
        with Some amp show ?thesis by simp
      next
        case other
        with Some np show ?thesis by simp
      qed
    qed
  qed
next
  case (30 n toks pos)
  show ?case
  proof
    assume b: "(if hasValue (getCurrentToken toks (pos + 1)) ''('' then need toks (pos + 2) 10
                else need toks pos 9) \<le> Suc n"
    show "lands toks (next_pos toks pos) (parseAssignmentOrFunctionCall (Suc n) toks pos)"
    proof (cases "getCurrentToken toks pos")
      case None
      then show ?thesis
        using getCurrentToken_None [OF None] by (simp add: next_pos_def)
    next
      case (Some ident)
      then have r: "pos < length toks"
        by (rule getCurrentToken_Some)
      then have np: "next_pos toks pos = pos + 1"
        by (simp add: next_pos_def)
      show ?thesis
      proof (cases "hasValue (getCurrentToken toks (pos + 1)) ''(''")
        case True
        with b have "need toks (pos + 2) 9 \<le> n"
          by (simp add: need_def)
        with 30(1) [OF Some True] have
          m: "lands toks (pos + 2) (parseArguments_loop n toks (pos + 2) [])"
          by simp
        have "lands toks (next_pos toks pos)
           (andThen (parseArguments_loop n toks (pos + 2) []) (\<lambda>(args, p).
             ok (Some (FunctionCall (tvalue ident) args), skipToken toks p '';'')))"
          by (rule lands_andThen [OF m]) (use np in \<open>auto intro!: le_skipToken\<close>)
        with Some True show ?thesis by simp
      next
        case False
        with b have b9: "need toks pos 9 \<le> Suc n"
          by simp
        show ?thesis
        proof (cases "matchValue (getCurrentToken toks (pos + 1))
                        [''='', ''+='', ''-='', ''*='', ''/='', ''++'', ''--'']")
          case None
          from b9 have "need toks pos 8 \<le> n"
            by (simp add: need_def)
          with 30(2) [OF Some False None] have
            "lands toks (next_pos toks pos) (parseExpression n toks pos)"
            by simp
          with Some False None show ?thesis by simp
        next
          case op: (Some operator)
          show ?thesis
          proof (cases "operator = ''++'' \<or> operator = ''--''")
            case True
            have "pos + 1 \<le> skipToken toks (pos + 2) '';''"
              by (rule le_skipToken) simp
            with Some False op True np show ?thesis by auto
          next
            case nincr: False
            from b9 have "need toks (pos + 2) 8 \<le> n"
              by (simp add: need_def)
            with 30(3) [OF Some False op nincr] have
              m: "lands toks (next_pos toks (pos + 2)) (parseExpression n toks (pos + 2))"
              by simp
            have "lands toks (next_pos toks pos)
               (andThen (parseExpression n toks (pos + 2)) (\<lambda>(val, p).
                    ok (Some (Assignment (tvalue ident) operator val),
                        skipToken toks p '';'')))"
              by (rule lands_andThen [OF m])
                (use np in \<open>auto simp: next_pos_def intro!: le_skipToken split: if_splits\<close>)
            with Some False op nincr show ?thesis by simp
          qed
        qed
      qed
    qed
  qed
next
  case (32 n toks pos args)
  show ?case
  proof
    assume b: "need toks pos 9 \<le> Suc n"
    show "lands toks pos (parseArguments_loop (Suc n) toks pos args)"
    proof (cases "pos < length toks")
      case False
      then show ?thesis by simp
    next
      case r: True
      from b r have n16: "16 * (length toks - (pos + 1)) + 24 \<le> n"
        by (simp add: need_def)
      show ?thesis
      proof (cases "hasValue (getCurrentToken toks pos) '')''")
        case True
        with r show ?thesis by simp
      next
        case nclose: False
        show ?thesis
        proof (cases "hasValue (getCurrentToken toks pos) '',''")
          case True
          from n16 have "need toks (pos + 1) 9 \<le> n"
            by (simp add: need_def)
          with 32(1) [OF r nclose True] have
            "lands toks (pos + 1) (parseArguments_loop n toks (pos + 1) args)"
            by simp
          then have "lands toks pos (parseArguments_loop n toks (pos + 1) args)"
            by (rule lands_mono) simp
          with r nclose True show ?thesis by simp
        next
          case ncomma: False
          from b have "need toks pos 8 \<le> n"
            by (simp add: need_def)
          with 32(2) [OF r nclose ncomma] have
            m: "lands toks (next_pos toks pos) (parseExpression n toks pos)"
            by simp
          have "lands toks pos
             (andThen (parseExpression n toks pos) (\<lambda>(expr, p).
               parseArguments_loop n toks p (pushNode args expr)))"
          proof (rule lands_andThen [OF m])
            fix v p
            assume p: "next_pos toks pos \<le> p"
            with r have pp: "pos + 1 \<le> p"
              by (simp add: next_pos_def)
            with n16 have "need toks p 9 \<le> n"
              by (simp add: need_def)
            with 32(3) [OF r nclose ncomma] have
              "lands toks p (parseArguments_loop n toks p (pushNode args v))"
              by simp
            then show "lands toks pos (parseArguments_loop n toks p (pushNode args v))"
              by (rule lands_mono) (use pp in simp)
          qed
          with r nclose ncomma show ?thesis by simp
        qed
      qed
    qed
  qed
qed (simp_all add: need_def)

subsection \<open>Every statement returns\<close>

text \<open>
  The same for the methods of statements: with the fuel \<open>need toks pos k\<close> of their
  rank they return or raise, and \<open>parseStatement\<close> moves past at least one token
  whenever one is left.
\<close>

lemma parseExpression_lands:
  "need toks pos 8 \<le> n \<Longrightarrow> lands toks (next_pos toks pos) (parseExpression n toks pos)"
  using expressions_return(1) by blast

lemma parseAssignmentOrFunctionCall_lands:
  assumes "need toks pos 9 \<le> n"
  shows "lands toks (next_pos toks pos) (parseAssignmentOrFunctionCall n toks pos)"
proof -
  have "need toks (pos + 2) 10 \<le> n" if "pos + 1 < length toks"
    using that assms by (simp add: need_def)
  then show ?thesis
    using expressions_return(15) [of toks pos n] assms hasValue_in_range [of toks "pos + 1" "''(''"]
    by auto
qed

lemma parseArguments_loop_lands:
  "need toks pos 9 \<le> n \<Longrightarrow> lands toks pos (parseArguments_loop n toks pos args)"
  using expressions_return(16) by blast

lemma need_mono: "pos \<le> q \<Longrightarrow> k \<le> j \<Longrightarrow> need toks q k \<le> need toks pos j"
  by (simp add: need_def)

lemma parseInclude_advances: "pos + 1 \<le> snd (parseInclude toks pos)"
  by (simp add: parseInclude_def split: option.splits)

lemma parseVariable_lands:
  assumes "need toks pos 9 \<le> n"
  shows "lands toks pos (parseVariable n toks pos varType name)"
proof (cases "hasValue (getCurrentToken toks pos) ''=''")
  case True
  have "need toks (pos + 1) 8 \<le> n"
    using assms by (simp add: need_def)
  then have m: "lands toks (next_pos toks (pos + 1)) (parseExpression n toks (pos + 1))"
    by (rule parseExpression_lands)
  have "lands toks pos (andThen (parseExpression n toks (pos + 1)) (\<lambda>(val, p).
         ok (Some (Variable varType name val), skipToken toks p '';'')))"
    by (rule lands_andThen [OF m])
      (auto simp: next_pos_def intro!: le_skipToken split: if_splits)
  with True show ?thesis by (simp add: parseVariable_def)
next
  case False
  then show ?thesis by (simp add: parseVariable_def le_skipToken)
qed

lemma parseReturnStatement_lands:
  assumes "need toks pos 9 \<le> n"
  shows "lands toks (pos + 1) (parseReturnStatement n toks pos)"
proof -
  have "need toks (pos + 1) 8 \<le> n"
    using assms by (simp add: need_def)
  then have m: "lands toks (next_pos toks (pos + 1)) (parseExpression n toks (pos + 1))"
    by (rule parseExpression_lands)
  have "lands toks (pos + 1) (andThen (parseExpression n toks (pos + 1)) (\<lambda>(val, p).
             ok (Some (ReturnStatement val), skipToken toks p '';'')))"
    by (rule lands_andThen [OF m])
      (auto simp: next_pos_def intro!: le_skipToken split: if_splits)
  then show ?thesis
    by (auto simp: parseReturnStatement_def le_skipToken split: option.splits)
qed

lemma arguments_statement_lands:
  assumes "need toks pos 9 \<le> n"
  shows "lands toks (pos + 1)
     (andThen (parseArguments_loop n toks (skipToken toks (pos + 1) ''('') []) (\<lambda>(args, p).
        ok (mk args, skipToken toks p '';'')))"
proof -
  have "need toks (skipToken toks (pos + 1) ''('') 9 \<le> n"
    using assms skipToken_bounds(1) [of "pos + 1" toks "''(''"]
    by (simp add: need_def)
  then have m: "lands toks (skipToken toks (pos + 1) ''('')
      (parseArguments_loop n toks (skipToken toks (pos + 1) ''('') [])"
    by (rule parseArguments_loop_lands)
  show ?thesis
    by (rule lands_andThen [OF m])
      (use skipToken_bounds(1) [of "pos + 1" toks "''(''"] in \<open>auto intro!: le_skipToken\<close>)
qed

lemma parsePrintfStatement_lands:
  "need toks pos 9 \<le> n \<Longrightarrow> lands toks (pos + 1) (parsePrintfStatement n toks pos)"
  unfolding parsePrintfStatement_def by (rule arguments_statement_lands)

lemma parseScanfStatement_lands:
  "need toks pos 9 \<le> n \<Longrightarrow> lands toks (pos + 1) (parseScanfStatement n toks pos)"
  unfolding parseScanfStatement_def by (rule arguments_statement_lands)

declare parseParameters_loop.simps [simp del]

lemma parseParameters_loop_mono: "pos \<le> snd (parseParameters_loop toks pos params)"
proof (induction toks pos params rule: parseParameters_loop.induct)
  case (1 toks pos params)
  show ?case
    using 1 by (subst parseParameters_loop.simps) (auto split: option.splits; meson Suc_leD)
qed

lemma statements_return:
  "need toks pos 10 \<le> n \<longrightarrow> lands toks (next_pos toks pos) (parseStatement n toks pos)"
  "need toks pos 1 \<le> n
   \<longrightarrow> lands toks (next_pos toks pos) (parseDeclarationOrFunction n toks pos)"
  "need toks pos 1 \<le> n \<longrightarrow> lands toks (pos + 1) (parseFunction n toks pos returnType name)"
  "pos < length toks \<longrightarrow> need toks pos 1 \<le> n \<longrightarrow> lands toks (pos + 1) (parseBlock n toks pos)"
  "need toks pos 11 \<le> n \<longrightarrow> lands toks pos (parseBlock_loop n toks pos stmts)"
  "pos < length toks \<longrightarrow> need toks pos 1 \<le> n
   \<longrightarrow> lands toks (pos + 1) (parseIfStatement n toks pos)"
  "pos < length toks \<longrightarrow> need toks pos 1 \<le> n
   \<longrightarrow> lands toks (pos + 1) (parseWhileStatement n toks pos)"
  "pos < length toks \<longrightarrow> need toks pos 1 \<le> n
   \<longrightarrow> lands toks (pos + 1) (parseForStatement n toks pos)"
proof (induction n toks pos and n toks pos and n toks pos returnType name and n toks pos
    and n toks pos stmts and n toks pos and n toks pos and n toks pos
    rule: parseStatement_parseDeclarationOrFunction_parseFunction_parseBlock_parseBlock_loop_parseIfStatement_parseWhileStatement_parseForStatement.induct)
  case (2 n toks pos)
  show ?case
  proof
    assume b: "need toks pos 10 \<le> Suc n"
    show "lands toks (next_pos toks pos) (parseStatement (Suc n) toks pos)"
    proof (cases "getCurrentToken toks pos")
      case None
      then show ?thesis
        using getCurrentToken_None [OF None] by (simp add: next_pos_def)
    next
      case (Some token)
      then have r: "pos < length toks"
        by (rule getCurrentToken_Some)
      then have np: "next_pos toks pos = pos + 1"
        by (simp add: next_pos_def)
      from b have n9: "need toks pos 9 \<le> n" and n1: "need toks pos 1 \<le> n"
        by (simp_all add: need_def)
      note callees =
        parseReturnStatement_lands [OF n9] parsePrintfStatement_lands [OF n9]
        parseScanfStatement_lands [OF n9]
        parseAssignmentOrFunctionCall_lands [OF n9]
      note ih = 2 [OF Some, rule_format]
      have incl: "pos + 1 \<le> snd (parseInclude toks pos)"
        by (rule parseInclude_advances)
      have incl': "lands toks (pos + 1) (ok (parseInclude toks pos))"
        using incl by (cases "parseInclude toks pos") simp
      show ?thesis
      proof (cases "ttype token = NEWLINE")
        case True
        then show ?thesis using Some np by simp
      next
        case nnl: False
        show ?thesis
        proof (cases "ttype token = DELIMITER \<and> tvalue token = Some ''#''")
          case True
          then show ?thesis using Some nnl incl' np by simp
        next
          case nhash: False
          show ?thesis
          proof (cases "ttype token = KEYWORD")
            case kw: True
            show ?thesis
            proof (cases "tvalue token = Some ''if''")
              case True
              from ih(1) [OF nnl nhash kw True r n1] show ?thesis
                using Some nnl nhash kw True np by simp
            next
              case nif: False
              show ?thesis
              proof (cases "tvalue token = Some ''while''")
                case True
                from ih(2) [OF nnl nhash kw nif True r n1] show ?thesis
                  using Some nnl nhash kw nif True np by simp
              next
                case nwhile: False
                show ?thesis
                proof (cases "tvalue token = Some ''for''")
                  case True
                  from ih(3) [OF nnl nhash kw nif nwhile True r n1] show ?thesis
                    using Some nnl nhash kw nif nwhile True np by simp
                next
                  case nfor: False
                  show ?thesis
                  proof (cases "tvalue token = Some ''return''")
                    case True
                    with callees(1) show ?thesis
                      using Some nnl nhash kw nif nwhile nfor np by simp
                  next
                    case nret: False
                    show ?thesis
                    proof (cases "tvalue token = Some ''printf''")
                      case True
                      with callees(2) show ?thesis
                        using Some nnl nhash kw nif nwhile nfor nret np by simp
                    next
                      case nprintf: False
                      show ?thesis
                      proof (cases "tvalue token = Some ''scanf''")
                        case True
                        with callees(3) show ?thesis
                          using Some nnl nhash kw nif nwhile nfor nret nprintf np by simp
                      next
                        case nscanf: False
                        show ?thesis
                        proof (cases "tvalue token \<in> Some ` set typeKeywords")
                          case True
                          from ih(4) [OF nnl nhash kw nif nwhile nfor nret nprintf nscanf True n1]
                          show ?thesis
                            using Some nnl nhash kw nif nwhile nfor nret nprintf nscanf True np
                            by simp
                        next
                          case False
                          then show ?thesis
                            using Some nnl nhash kw nif nwhile nfor nret nprintf nscanf np
                            by simp
                        qed
                      qed
                    qed
                  qed
                qed
              qed
            qed
          next
            case nkw: False
            show ?thesis
            proof (cases "ttype token = IDENTIFIER")
              case True
              with callees(4) show ?thesis
                using Some nnl nhash nkw np by simp
            next
              case nid: False
              show ?thesis
              proof (cases "ttype token = DELIMITER \<and> tvalue token = Some ''{''")
                case True
                from ih(5) [OF nnl nhash nkw nid True r n1] show ?thesis
                  using Some nnl nhash nkw nid True np by simp
              next
                case False
                then show ?thesis
                  using Some nnl nhash nkw nid np by auto
              qed
            qed
          qed
        qed
      qed
    qed
  qed
next
  case (4 n toks pos)
  show ?case
  proof
    assume b: "need toks pos 1 \<le> Suc n"
    show "lands toks (next_pos toks pos) (parseDeclarationOrFunction (Suc n) toks pos)"
    proof (cases "getCurrentToken toks pos")
      case None
      then show ?thesis
        using getCurrentToken_None [OF None] by (simp add: next_pos_def)
    next
      case (Some typeToken)
      then have r: "pos < length toks"
        by (rule getCurrentToken_Some)
      then have np: "next_pos toks pos = pos + 1"
        by (simp add: next_pos_def)
      show ?thesis
      proof (cases "getCurrentToken toks (pos + 1)")
        case None
        with Some np show ?thesis by simp
      next
        case nm: (Some nameToken)
        then have r1: "pos + 1 < length toks"
          by (rule getCurrentToken_Some)
        with b have n2: "need toks (pos + 2) 9 \<le> n"
          by (simp add: need_def)
        show ?thesis
        proof (cases "ttype nameToken = IDENTIFIER")
          case False
          with Some nm np show ?thesis by simp
        next
          case idt: True
          show ?thesis
          proof (cases "hasValue (getCurrentToken toks (pos + 2)) ''(''")
            case True
            from n2 have "need toks (pos + 2) 1 \<le> n"
              by (simp add: need_def)
            with 4 [OF Some nm idt True] have
              "lands toks (pos + 2 + 1)
                 (parseFunction n toks (pos + 2) (tvalue typeToken) (tvalue nameToken))"
              by simp
            then have "lands toks (pos + 1)
                 (parseFunction n toks (pos + 2) (tvalue typeToken) (tvalue nameToken))"
              by (rule lands_mono) simp
            with Some nm idt True np show ?thesis by simp
          next
            case False
            have "lands toks (pos + 2)
                 (parseVariable n toks (pos + 2) (tvalue typeToken) (tvalue nameToken))"
              using n2 by (rule parseVariable_lands)
            then have "lands toks (pos + 1)
                 (parseVariable n toks (pos + 2) (tvalue typeToken) (tvalue nameToken))"
              by (rule lands_mono) simp
            with Some nm idt False np show ?thesis by simp
          qed
        qed
      qed
    qed
  qed
next
  case (6 n toks pos returnType name)
  show ?case
  proof
    assume b: "need toks pos 1 \<le> Suc n"
    obtain params p where pp: "parseParameters_loop toks (pos + 1) [] = (params, p)"
      by (cases "parseParameters_loop toks (pos + 1) []") auto
    have p: "pos + 1 \<le> p"
      using parseParameters_loop_mono [of "pos + 1" toks "[]"] pp by simp
    show "lands toks (pos + 1) (parseFunction (Suc n) toks pos returnType name)"
    proof (cases "hasValue (getCurrentToken toks p) ''{''")
      case False
      with pp p show ?thesis by simp
    next
      case True
      then have rp: "p < length toks"
        by (rule hasValue_in_range)
      with b p have "need toks p 1 \<le> n"
        by (simp add: need_def)
      with 6 [OF pp [symmetric] True] rp have
        m: "lands toks (p + 1) (parseBlock n toks p)"
        by simp
      have "lands toks (pos + 1)
         (andThen (parseBlock n toks p) (\<lambda>(blockNode, p1).
             ok (Some (Function returnType name params
                         (case blockNode of Some (Block stmts) \<Rightarrow> stmts | _ \<Rightarrow> [])), p1)))"
        by (rule lands_andThen [OF m]) (use p in simp)
      with pp True show ?thesis by simp
    qed
  qed
next
  case (8 n toks pos)
  show ?case
  proof (intro impI)
    assume r: "pos < length toks" and b: "need toks pos 1 \<le> Suc n"
    then have "need toks (pos + 1) 11 \<le> n"
      by (simp add: need_def)
    with 8 have m: "lands toks (pos + 1) (parseBlock_loop n toks (pos + 1) [])"
      by simp
    have "lands toks (pos + 1)
       (andThen (parseBlock_loop n toks (pos + 1) [])
          (\<lambda>(statements, p). ok (Some (Block statements), p)))"
      by (rule lands_andThen [OF m]) simp
    then show "lands toks (pos + 1) (parseBlock (Suc n) toks pos)"
      by simp
  qed
next
  case (10 n toks pos stmts)
  show ?case
  proof
    assume b: "need toks pos 11 \<le> Suc n"
    show "lands toks pos (parseBlock_loop (Suc n) toks pos stmts)"
    proof (cases "pos < length toks")
      case False
      then show ?thesis by simp
    next
      case r: True
      show ?thesis
      proof (cases "hasValue (getCurrentToken toks pos) ''}''")
        case True
        with r show ?thesis by simp
      next
        case nclose: False
        from b have "need toks pos 10 \<le> n"
          by (simp add: need_def)
        with 10(1) [OF r nclose] have
          m: "lands toks (next_pos toks pos) (parseStatement n toks pos)"
          by simp
        have "lands toks pos
           (andThen (parseStatement n toks pos) (\<lambda>(stmt, p).
               parseBlock_loop n toks p (pushNode stmts stmt)))"
        proof (rule lands_andThen [OF m])
          fix v p
          assume "next_pos toks pos \<le> p"
          with r have pp: "pos + 1 \<le> p"
            by (simp add: next_pos_def)
          with b r have "need toks p 11 \<le> n"
            by (simp add: need_def)
          with 10(2) [OF r nclose] have
            "lands toks p (parseBlock_loop n toks p (pushNode stmts v))"
            by simp
          then show "lands toks pos (parseBlock_loop n toks p (pushNode stmts v))"
            by (rule lands_mono) (use pp in simp)
        qed
        with r nclose show ?thesis by simp
      qed
    qed
  qed
next
  case (12 n toks pos)
  show ?case
  proof (intro impI)
    assume r: "pos < length toks" and b: "need toks pos 1 \<le> Suc n"
    then have n16: "16 * (length toks - (pos + 1)) + 16 \<le> n"
      by (simp add: need_def)
    have after: "need toks q 10 \<le> n" if "pos + 1 \<le> q" for q
      using that n16 by (simp add: need_def)
    have q1: "pos + 1 \<le> skipToken toks (pos + 1) ''(''"
      by (rule skipToken_bounds)
    have m: "lands toks (next_pos toks (skipToken toks (pos + 1) ''(''))
               (parseExpression n toks (skipToken toks (pos + 1) ''(''))"
      using after [OF q1] by (intro parseExpression_lands) (simp add: need_def)
    have "lands toks (pos + 1)
      (andThen (parseExpression n toks (skipToken toks (pos + 1) ''('')) (\<lambda>(condition, p).
       andThen (parseStatement n toks (skipToken toks p '')'')) (\<lambda>(thenStatement, p1).
         if hasValue (getCurrentToken toks p1) ''else'' then
           andThen (parseStatement n toks (p1 + 1)) (\<lambda>(elseStatement, p2).
             ok (Some (IfStatement condition thenStatement elseStatement), p2))
         else ok (Some (IfStatement condition thenStatement None), p1))))"
    proof (rule lands_andThen [OF m])
      fix condition p
      assume "next_pos toks (skipToken toks (pos + 1) ''('') \<le> p"
      with q1 have p: "pos + 1 \<le> p"
        by (simp add: next_pos_def split: if_splits)
      then have q2: "pos + 1 \<le> skipToken toks p '')''"
        by (rule le_skipToken)
      from 12(1) after [OF q2] have
        m2: "lands toks (next_pos toks (skipToken toks p '')''))
               (parseStatement n toks (skipToken toks p '')''))"
        by simp
      show "lands toks (pos + 1)
        (andThen (parseStatement n toks (skipToken toks p '')'')) (\<lambda>(thenStatement, p1).
         if hasValue (getCurrentToken toks p1) ''else'' then
           andThen (parseStatement n toks (p1 + 1)) (\<lambda>(elseStatement, p2).
             ok (Some (IfStatement condition thenStatement elseStatement), p2))
         else ok (Some (IfStatement condition thenStatement None), p1)))"
      proof (rule lands_andThen [OF m2])
        fix thenStatement p1
        assume "next_pos toks (skipToken toks p '')'') \<le> p1"
        with q2 have p1: "pos + 1 \<le> p1"
          by (simp add: next_pos_def split: if_splits)
        show "lands toks (pos + 1)
          (if hasValue (getCurrentToken toks p1) ''else'' then
             andThen (parseStatement n toks (p1 + 1)) (\<lambda>(elseStatement, p2).
               ok (Some (IfStatement condition thenStatement elseStatement), p2))
           else ok (Some (IfStatement condition thenStatement None), p1))"
        proof (cases "hasValue (getCurrentToken toks p1) ''else''")
          case False
          with p1 show ?thesis by simp
        next
          case True
          from p1 have "pos + 1 \<le> p1 + 1" by simp
          from 12(2) [OF True] after [OF this] have
            m3: "lands toks (next_pos toks (p1 + 1)) (parseStatement n toks (p1 + 1))"
            by simp
          have "lands toks (pos + 1)
            (andThen (parseStatement n toks (p1 + 1)) (\<lambda>(elseStatement, p2).
               ok (Some (IfStatement condition thenStatement elseStatement), p2)))"
            by (rule lands_andThen [OF m3])
              (use p1 in \<open>simp add: next_pos_def split: if_splits\<close>)
          with True show ?thesis by simp
        qed
      qed
    qed
    then show "lands toks (pos + 1) (parseIfStatement (Suc n) toks pos)"
      by simp
  qed
next
  case (14 n toks pos)
  show ?case
  proof (intro impI)
    assume r: "pos < length toks" and b: "need toks pos 1 \<le> Suc n"
    then have n16: "16 * (length toks - (pos + 1)) + 16 \<le> n"
      by (simp add: need_def)
    have after: "need toks q 10 \<le> n" if "pos + 1 \<le> q" for q
      using that n16 by (simp add: need_def)
    have q1: "pos + 1 \<le> skipToken toks (pos + 1) ''(''"
      by (rule skipToken_bounds)
    have m: "lands toks (next_pos toks (skipToken toks (pos + 1) ''(''))
               (parseExpression n toks (skipToken toks (pos + 1) ''(''))"
      using after [OF q1] by (intro parseExpression_lands) (simp add: need_def)
    have "lands toks (pos + 1)
      (andThen (parseExpression n toks (skipToken toks (pos + 1) ''('')) (\<lambda>(condition, p).
       andThen (parseStatement n toks (skipToken toks p '')'')) (\<lambda>(body, p1).
         ok (Some (WhileLoop condition body), p1))))"
    proof (rule lands_andThen [OF m])
      fix condition p
      assume "next_pos toks (skipToken toks (pos + 1) ''('') \<le> p"
      with q1 have p: "pos + 1 \<le> p"
        by (simp add: next_pos_def split: if_splits)
      then have q2: "pos + 1 \<le> skipToken toks p '')''"
        by (rule le_skipToken)
      from 14 after [OF q2] have
        m2: "lands toks (next_pos toks (skipToken toks p '')''))
               (parseStatement n toks (skipToken toks p '')''))"
        by simp
      show "lands toks (pos + 1)
        (andThen (parseStatement n toks (skipToken toks p '')'')) (\<lambda>(body, p1).
           ok (Some (WhileLoop condition body), p1)))"
        by (rule lands_andThen [OF m2])
          (use q2 in \<open>simp add: next_pos_def split: if_splits\<close>)
    qed
    then show "lands toks (pos + 1) (parseWhileStatement (Suc n) toks pos)"
      by simp
  qed
next
  case (16 n toks pos)
  show ?case
  proof (intro impI)
    assume r: "pos < length toks" and b: "need toks pos 1 \<le> Suc n"
    then have n16: "16 * (length toks - (pos + 1)) + 16 \<le> n"
      by (simp add: need_def)
    have after: "need toks q 10 \<le> n" if "pos + 1 \<le> q" for q
      using that n16 by (simp add: need_def)
    have expr: "lands toks (pos + 1) (parseExpression n toks q)" if "pos + 1 \<le> q" for q
    proof -
      have "lands toks (next_pos toks q) (parseExpression n toks q)"
        using after [OF that] by (intro parseExpression_lands) (simp add: need_def)
      then show ?thesis
        by (rule lands_mono) (use that in \<open>simp add: next_pos_def\<close>)
    qed
    define q1 where "q1 = skipToken toks (pos + 1) ''(''"
    have q1: "pos + 1 \<le> q1"
      unfolding q1_def by (rule skipToken_bounds)
    define initPart where "initPart =
      (case getCurrentToken toks q1 of
         None \<Rightarrow> ok (None, q1)
       | Some initToken \<Rightarrow>
           if ttype initToken = KEYWORD then parseDeclarationOrFunction n toks q1
           else if ttype initToken = IDENTIFIER then parseAssignmentOrFunctionCall n toks q1
           else ok (None, q1))"
    have m: "lands toks (pos + 1) initPart"
    proof (cases "getCurrentToken toks q1")
      case None
      with q1 show ?thesis by (simp add: initPart_def)
    next
      case (Some initToken)
      show ?thesis
      proof (cases "ttype initToken = KEYWORD")
        case True
        from after [OF q1] have "need toks q1 1 \<le> n"
          by (simp add: need_def)
        with 16(1) [OF Some [unfolded q1_def] True] have
          "lands toks (next_pos toks q1) (parseDeclarationOrFunction n toks q1)"
          by (simp add: q1_def)
        then have "lands toks (pos + 1) (parseDeclarationOrFunction n toks q1)"
          by (rule lands_mono) (use q1 in \<open>simp add: next_pos_def\<close>)
        with Some True show ?thesis by (simp add: initPart_def)
      next
        case notKeyword: False
        show ?thesis
        proof (cases "ttype initToken = IDENTIFIER")
          case True
          from after [OF q1] have "need toks q1 9 \<le> n"
            by (simp add: need_def)
          then have "lands toks (next_pos toks q1) (parseAssignmentOrFunctionCall n toks q1)"
            by (rule parseAssignmentOrFunctionCall_lands)
          then have "lands toks (pos + 1) (parseAssignmentOrFunctionCall n toks q1)"
            by (rule lands_mono) (use q1 in \<open>simp add: next_pos_def\<close>)
          with Some notKeyword True show ?thesis by (simp add: initPart_def)
        next
          case False
          with Some notKeyword q1 show ?thesis by (simp add: initPart_def)
        qed
      qed
    qed
    have "lands toks (pos + 1)
      (andThen initPart (\<lambda>(init, p).
       andThen (parseExpression n toks (skipToken toks p '';'')) (\<lambda>(condition, p1).
       andThen (parseExpression n toks (skipToken toks p1 '';'')) (\<lambda>(update, p2).
       andThen (parseStatement n toks (skipToken toks p2 '')'')) (\<lambda>(body, p3).
         ok (Some (ForLoop init condition update body), p3))))))"
    proof (rule lands_andThen [OF m])
      fix init p
      assume "pos + 1 \<le> p"
      then have q2: "pos + 1 \<le> skipToken toks p '';''"
        by (rule le_skipToken)
      show "lands toks (pos + 1)
        (andThen (parseExpression n toks (skipToken toks p '';'')) (\<lambda>(condition, p1).
         andThen (parseExpression n toks (skipToken toks p1 '';'')) (\<lambda>(update, p2).
         andThen (parseStatement n toks (skipToken toks p2 '')'')) (\<lambda>(body, p3).
           ok (Some (ForLoop init condition update body), p3)))))"
      proof (rule lands_andThen [OF expr [OF q2]])
        fix condition p1
        assume "pos + 1 \<le> p1"
        then have q3: "pos + 1 \<le> skipToken toks p1 '';''"
          by (rule le_skipToken)
        show "lands toks (pos + 1)
          (andThen (parseExpression n toks (skipToken toks p1 '';'')) (\<lambda>(update, p2).
           andThen (parseStatement n toks (skipToken toks p2 '')'')) (\<lambda>(body, p3).
             ok (Some (ForLoop init condition update body), p3))))"
        proof (rule lands_andThen [OF expr [OF q3]])
          fix update p2
          assume "pos + 1 \<le> p2"
          then have q4: "pos + 1 \<le> skipToken toks p2 '')''"
            by (rule le_skipToken)
          from 16(2) after [OF q4] have
            m4: "lands toks (next_pos toks (skipToken toks p2 '')''))
                   (parseStatement n toks (skipToken toks p2 '')''))"
            by simp
          show "lands toks (pos + 1)
            (andThen (parseStatement n toks (skipToken toks p2 '')'')) (\<lambda>(body, p3).
               ok (Some (ForLoop init condition update body), p3)))"
            by (rule lands_andThen [OF m4])
              (use q4 in \<open>simp add: next_pos_def split: if_splits\<close>)
        qed
      qed
    qed
    then show "lands toks (pos + 1) (parseForStatement (Suc n) toks pos)"
      unfolding initPart_def q1_def by simp
  qed
qed (simp_all add: need_def)

subsection \<open>\<open>parse\<close> returns or raises\<close>

text \<open>
  The loop of \<open>parse\<close> is given fuel for a statement at every position. It pushes at
  most one node for every statement, and every statement moves the position forward.
\<close>

lemma parse_loop_returns:
  "need toks pos 11 \<le> n \<Longrightarrow>
   (case parse_loop n toks pos stmts of
      None \<Rightarrow> False
    | Some (Inl e) \<Rightarrow> \<not> wellValued toks
    | Some (Inr out) \<Rightarrow> length out \<le> length stmts + (length toks - pos))"
proof (induction n arbitrary: pos stmts)
  case 0
  then show ?case by (simp add: need_def)
next
  case (Suc n)
  show ?case
  proof (cases "pos < length toks \<and> ttype (toks ! pos) \<noteq> EOF")
    case False
    then show ?thesis by (auto simp: ok_def)
  next
    case True
    then have r: "pos < length toks" by simp
    from Suc.prems have "need toks pos 10 \<le> n"
      by (simp add: need_def)
    with statements_return(1) [of toks pos n] r have
      m: "lands toks (pos + 1) (parseStatement n toks pos)"
      by (simp add: next_pos_def)
    show ?thesis
    proof (cases "parseStatement n toks pos")
      case None
      with m show ?thesis by simp
    next
      case (Some res)
      show ?thesis
      proof (cases res)
        case (Inl e)
        with Some m True show ?thesis
          by (simp add: lands_def andThen_def)
      next
        case (Inr vp)
        obtain v p where vp: "vp = (v, p)" by (cases vp) auto
        with m Some Inr have p: "pos + 1 \<le> p"
          by (simp add: lands_def)
        with Suc.prems r have "need toks p 11 \<le> n"
          by (simp add: need_def)
        from Suc.IH [OF this, of "pushNode stmts v"] p r
        have "case parse_loop n toks p (pushNode stmts v) of
                None \<Rightarrow> False
              | Some (Inl e) \<Rightarrow> \<not> wellValued toks
              | Some (Inr out) \<Rightarrow> length out \<le> length stmts + (length toks - pos)"
          by (auto simp: pushNode_def split: option.splits sum.splits)
        with Some Inr vp True show ?thesis
          by (simp add: andThen_def)
      qed
    qed
  qed
qed

lemma wellValued_SyntaxAnalyzer: "wellValued toks \<Longrightarrow> wellValued (SyntaxAnalyzer toks)"
  by (simp add: wellValued_def SyntaxAnalyzer_def)

lemma parse_with_returns:
  assumes "parseFuel toks \<le> n"
  shows "case parse_with n toks of
      None \<Rightarrow> False
    | Some (Inl e) \<Rightarrow> \<not> wellValued toks
    | Some (Inr root) \<Rightarrow>
        \<exists>stmts. root = \<lparr>type = ''Program'', body = BodyArray stmts\<rparr>
          \<and> length stmts \<le> length toks"
proof -
  have len: "length (SyntaxAnalyzer toks) \<le> length toks"
    by (simp add: SyntaxAnalyzer_def)
  with assms have "need (SyntaxAnalyzer toks) 0 11 \<le> n"
    by (simp add: need_def parseFuel_def)
  from parse_loop_returns [OF this, of "[]"] len wellValued_SyntaxAnalyzer [of toks]
  show ?thesis
    by (auto simp: parse_with_def andThen_def ok_def split: option.splits sum.splits)
qed

text \<open>
  Every token that \<open>tokenize\<close> pushes before the end-of-input token has a value, so
  the token list of any text is well valued.
\<close>

lemma readIdentifier_valued:
  "\<exists>t. tokens (readIdentifier s) = tokens s @ [t] \<and> tvalue t \<noteq> None"
  using readIdentifier_loop_frame [of s "[]"]
  by (simp add: readIdentifier_def Let_def split_beta mkToken_def)

lemma readNumber_valued:
  "\<exists>t. tokens (readNumber s) = tokens s @ [t] \<and> tvalue t \<noteq> None"
  using readNumber_loop_frame [of s "[]" False]
  by (simp add: readNumber_def Let_def split_beta mkToken_def)

lemma readString_valued:
  "\<exists>t. tokens (readString s) = tokens s @ [t] \<and> tvalue t \<noteq> None"
  using readQuoted_loop_frame [of dquote "advance s" "[]"]
  by (simp add: readString_def Let_def split_beta mkToken_def)

lemma readCharLiteral_valued:
  "\<exists>t. tokens (readCharLiteral s) = tokens s @ [t] \<and> tvalue t \<noteq> None"
  using readQuoted_loop_frame [of squote "advance s" "[]"]
  by (simp add: readCharLiteral_def Let_def split_beta mkToken_def)

lemma readOperator_valued:
  "\<exists>t. tokens (readOperator s) = tokens s @ [t] \<and> tvalue t \<noteq> None"
  by (simp add: readOperator_def Let_def split_beta mkToken_def)

lemma readDelimiter_valued:
  "\<exists>t. tokens (readDelimiter s) = tokens s @ [t] \<and> tvalue t \<noteq> None"
  by (simp add: readDelimiter_def Let_def mkToken_def)

lemma dispatch_valued:
  "tokens (dispatch s) = tokens s
   \<or> (\<exists>t. tokens (dispatch s) = tokens s @ [t] \<and> tvalue t \<noteq> None)"
  using skipSingleLineComment_frame [of s]
    skipMultiLineComment_frame [of s] readIdentifier_valued [of s]
    readNumber_valued [of s] readString_valued [of s]
    readCharLiteral_valued [of s] readOperator_valued [of s] readDelimiter_valued [of s]
  by (simp add: dispatch_def Let_def mkToken_def)

lemma tokenize_loop_valued:
  "\<forall>t \<in> set (tokens s). tvalue t \<noteq> None
   \<Longrightarrow> \<forall>t \<in> set (tokens (tokenize_loop s)). tvalue t \<noteq> None"
proof (induction s rule: tokenize_loop.induct)
  case (1 s)
  have "\<forall>t \<in> set (tokens (dispatch (skipWhitespace s))). tvalue t \<noteq> None"
    using 1(2) skipWhitespace_frame [of s] dispatch_valued [of "skipWhitespace s"]
    by auto
  with 1 show ?case
    using skipWhitespace_frame [of s]
    by (subst tokenize_loop.simps) auto
qed

lemma tokenize_wellValued: "wellValued (tokenize (LexicalAnalyzer c))"
  using tokenize_loop_valued [of "LexicalAnalyzer c"]
  by (auto simp: wellValued_def tokenize_def LexicalAnalyzer_def eofToken_def)

lemma parse_of_tokenize_returns:
  "\<exists>stmts. parse (tokenize (LexicalAnalyzer c))
      = Some (Inr \<lparr>type = ''Program'', body = BodyArray stmts\<rparr>)
    \<and> length stmts \<le> length (tokenize (LexicalAnalyzer c))"
  using parse_with_returns [of "tokenize (LexicalAnalyzer c)" "parseFuel (tokenize (LexicalAnalyzer c))"]
    tokenize_wellValued [of c]
  by (auto simp: parse_def split: option.splits sum.splits)






end
